theory Spec2Isabelle
  imports Main
begin

section \<open>Data model of \<open>copr.v3.helpers.wait\<close>\<close>

text \<open>
  The value bound to the \<open>__proxy__\<close> attribute of a result object: the attribute may be
  missing (\<open>hasattr\<close> is false), it may hold \<open>None\<close> (the default of the \<open>List\<close> class), or it
  holds a reference to a client proxy object.
\<close>

datatype attr = NoAttr | PyNone | Client nat

text \<open>
  A build Munch as far as \<open>wait\<close> reads it: \<open>build.id\<close>, \<open>build.state\<close> and \<open>build.__proxy__\<close>.
\<close>

record munch =
  id' :: int
  state :: string
  proxy :: attr

text \<open>
  The \<open>waitable\<close> argument is either one Munch or a list of them; a list is a plain Python list
  (no \<open>__proxy__\<close> attribute) or an instance of \<open>List\<close>, which carries one.
\<close>

datatype waitable = Single munch | Many "munch list" attr

text \<open>
  Exceptions leaving \<open>wait\<close>. \<open>CoprException\<close> is raised by the two \<open>raise\<close> statements of
  \<open>wait\<close> with its message; \<open>AttributeError\<close> and \<open>KeyError\<close> come from attribute access,
  dictionary lookup and \<open>set.remove\<close>; \<open>Propagated\<close> is whatever \<open>proxy.get\<close>, the callback or
  \<open>time.sleep\<close> raised, which \<open>wait\<close> does not catch.
\<close>

datatype exn = CoprException string | AttributeError | KeyError | Propagated string

text \<open>The calls \<open>wait\<close> makes to the outside, in the order it makes them.\<close>

datatype event =
    Clock int
  | Get nat int "string + munch"
  | Callback "munch list"
  | Sleep int

text \<open>
  The outside world: \<open>proxy.get(build_id)\<close> for the proxy object with a given reference,
  \<open>time.time()\<close>, \<open>time.sleep(interval)\<close>, and the order in which a Python set hands out its
  elements (\<open>for build_id in watched.copy()\<close>), which the language leaves open.
\<close>

record 'w env =
  proxy_get :: "nat \<Rightarrow> int \<Rightarrow> 'w \<Rightarrow> (string + munch) \<times> 'w"
  time_time :: "'w \<Rightarrow> int"
  time_sleep :: "int \<Rightarrow> 'w \<Rightarrow> string option \<times> 'w"
  set_iter :: "int list \<Rightarrow> int list"

type_synonym 'w callback = "munch list \<Rightarrow> 'w \<Rightarrow> string option \<times> 'w"

text \<open>
  The local variables of \<open>wait\<close>: the set \<open>watched\<close> (a duplicate-free list), the dictionary
  \<open>munches\<close> (insertion ordered, as Python dictionaries are since 3.7), the list \<open>failed\<close>,
  together with the world and the trace of outside calls made so far.
\<close>

record 'w session =
  watched :: "int list"
  munches :: "(int \<times> munch) list"
  failed :: "int list"
  world :: 'w
  trace :: "event list"

datatype outcome = Return "munch list" | Raise exn | Continue

section \<open>Dictionary operations\<close>

text \<open>\<open>d[k] = v\<close>: an existing key keeps its position, a new key goes to the end.\<close>

fun dict_set :: "(int \<times> 'v) list \<Rightarrow> int \<Rightarrow> 'v \<Rightarrow> (int \<times> 'v) list" where
  "dict_set [] k v = [(k, v)]"
| "dict_set ((k', v') # d) k v = (if k' = k then (k, v) # d else (k', v') # dict_set d k v)"

text \<open>\<open>dict(pairs)\<close>: the pairs are stored from left to right.\<close>

definition dict :: "(int \<times> 'v) list \<Rightarrow> (int \<times> 'v) list" where
  "dict kvs = foldl (\<lambda>d (k, v). dict_set d k v) [] kvs"

text \<open>\<open>list(d.values())\<close>.\<close>

definition dict_values :: "(int \<times> 'v) list \<Rightarrow> 'v list" where
  "dict_values d = map snd d"

section \<open>The polling routine\<close>

text \<open>\<open>waitable.__proxy__\<close>, the fallback of line 109.\<close>

fun waitable_proxy :: "waitable \<Rightarrow> attr" where
  "waitable_proxy (Single m) = proxy m"
| "waitable_proxy (Many bs a) = a"

text \<open>\<open>builds = waitable if isinstance(waitable, list) else [waitable]\<close>.\<close>

fun builds_of :: "waitable \<Rightarrow> munch list" where
  "builds_of (Single m) = [m]"
| "builds_of (Many bs a) = bs"

definition terminal_states :: "string list" where
  "terminal_states = [''succeeded'', ''skipped'', ''failed'', ''canceled'']"

text \<open>
  The body of the \<open>for\<close> loop (lines 106 to 117) for one \<open>build_id\<close>. The result is the
  exception raised, if any, and the session as the body left it.
\<close>

definition poll_build ::
  "'w env \<Rightarrow> waitable \<Rightarrow> int \<Rightarrow> 'w session \<Rightarrow> exn option \<times> 'w session" where
  "poll_build env waitable build_id s =
     (case map_of (munches s) build_id of
        None \<Rightarrow> (Some KeyError, s)
      | Some m \<Rightarrow>
          (case (if proxy m \<noteq> NoAttr then proxy m else waitable_proxy waitable) of
             NoAttr \<Rightarrow> (Some AttributeError, s)
           | PyNone \<Rightarrow> (Some AttributeError, s)
           | Client p \<Rightarrow>
               (case proxy_get env p build_id (world s) of
                  (Inl err, w') \<Rightarrow>
                    (Some (Propagated err),
                     s\<lparr>world := w', trace := trace s @ [Get p build_id (Inl err)]\<rparr>)
                | (Inr build, w') \<Rightarrow>
                    (let s1 = s\<lparr>world := w',
                                trace := trace s @ [Get p build_id (Inr build)],
                                munches := dict_set (munches s) build_id build\<rparr>;
                         s2 = (if state build \<in> set [''failed'']
                               then s1\<lparr>failed := failed s1 @ [build_id]\<rparr> else s1)
                     in if state build \<in> set terminal_states
                        then (if build_id \<in> set (watched s2)
                              then (if state build = ''unknown''
                                    then Some (CoprException ''Unknown status.'') else None,
                                    s2\<lparr>watched := removeAll build_id (watched s2)\<rparr>)
                              else (Some KeyError, s2))
                        else (if state build = ''unknown''
                              then Some (CoprException ''Unknown status.'') else None, s2)))))"

text \<open>The \<open>for\<close> loop over the copy of \<open>watched\<close>: it stops at the first exception.\<close>

fun poll_watched ::
  "'w env \<Rightarrow> waitable \<Rightarrow> int list \<Rightarrow> 'w session \<Rightarrow> exn option \<times> 'w session" where
  "poll_watched env waitable [] s = (None, s)"
| "poll_watched env waitable (build_id # ids) s =
     (case poll_build env waitable build_id s of
        (Some e, s') \<Rightarrow> (Some e, s')
      | (None, s') \<Rightarrow> poll_watched env waitable ids s')"

text \<open>\<open>if callback: callback(list(munches.values()))\<close>.\<close>

definition run_callback :: "'w callback option \<Rightarrow> 'w session \<Rightarrow> exn option \<times> 'w session" where
  "run_callback callback s =
     (case callback of
        None \<Rightarrow> (None, s)
      | Some cb \<Rightarrow>
          (case cb (dict_values (munches s)) (world s) of
             (r, w') \<Rightarrow>
               (map_option Propagated r,
                s\<lparr>world := w', trace := trace s @ [Callback (dict_values (munches s))]\<rparr>)))"

text \<open>\<open>time.sleep(interval)\<close>.\<close>

definition run_sleep :: "'w env \<Rightarrow> int \<Rightarrow> 'w session \<Rightarrow> outcome \<times> 'w session" where
  "run_sleep env interval s =
     (case time_sleep env interval (world s) of
        (r, w') \<Rightarrow>
          (case r of None \<Rightarrow> Continue | Some err \<Rightarrow> Raise (Propagated err),
           s\<lparr>world := w', trace := trace s @ [Sleep interval]\<rparr>))"

text \<open>
  One pass through the body of \<open>while True\<close> (lines 105 to 125): poll every watched build,
  call the callback, leave the loop when nothing is watched, check the deadline, sleep.
\<close>

definition wait_round ::
  "'w env \<Rightarrow> waitable \<Rightarrow> int \<Rightarrow> 'w callback option \<Rightarrow> int \<Rightarrow> int \<Rightarrow> 'w session
     \<Rightarrow> outcome \<times> 'w session" where
  "wait_round env waitable interval callback timeout terminate s =
     (case poll_watched env waitable (set_iter env (watched s)) s of
        (Some e, s1) \<Rightarrow> (Raise e, s1)
      | (None, s1) \<Rightarrow>
          (case run_callback callback s1 of
             (Some e, s2) \<Rightarrow> (Raise e, s2)
           | (None, s2) \<Rightarrow>
               if watched s2 = [] then (Return (dict_values (munches s2)), s2)
               else if timeout \<noteq> 0
               then (let t = time_time env (world s2);
                         s3 = s2\<lparr>trace := trace s2 @ [Clock t]\<rparr>
                     in if t \<ge> terminate then (Raise (CoprException ''Timeouted''), s3)
                        else run_sleep env interval s3)
               else run_sleep env interval s2))"

text \<open>
  The \<open>while True\<close> loop, which may run forever: the first argument bounds the number of
  rounds, and \<open>None\<close> says that the loop is still running after that many rounds.
\<close>

fun wait_loop ::
  "nat \<Rightarrow> 'w env \<Rightarrow> waitable \<Rightarrow> int \<Rightarrow> 'w callback option \<Rightarrow> int \<Rightarrow> int \<Rightarrow> 'w session
     \<Rightarrow> (exn + munch list) option \<times> 'w session" where
  "wait_loop 0 env waitable interval callback timeout terminate s = (None, s)"
| "wait_loop (Suc n) env waitable interval callback timeout terminate s =
     (case wait_round env waitable interval callback timeout terminate s of
        (Return ms, s') \<Rightarrow> (Some (Inr ms), s')
      | (Raise e, s') \<Rightarrow> (Some (Inl e), s')
      | (Continue, s') \<Rightarrow> wait_loop n env waitable interval callback timeout terminate s')"

text \<open>Lines 98 to 102: the session as \<open>wait\<close> sets it up.\<close>

definition init ::
  "'w env \<Rightarrow> waitable \<Rightarrow> 'w \<Rightarrow> 'w session" where
  "init env waitable w =
     (let builds = builds_of waitable
      in \<lparr>watched = remdups (map id' builds),
          munches = dict (map (\<lambda>build. (id' build, build)) builds),
          failed = [],
          world = w,
          trace = [Clock (time_time env w)]\<rparr>)"

text \<open>\<open>wait(waitable, interval, callback, timeout)\<close>, observed for at most \<open>n\<close> rounds.\<close>

definition wait ::
  "nat \<Rightarrow> 'w env \<Rightarrow> waitable \<Rightarrow> int \<Rightarrow> 'w callback option \<Rightarrow> int \<Rightarrow> 'w
     \<Rightarrow> (exn + munch list) option \<times> 'w session" where
  "wait n env waitable interval callback timeout w =
     wait_loop n env waitable interval callback timeout (time_time env w + timeout)
       (init env waitable w)"

section \<open>A scripted environment\<close>

text \<open>
  A test double for the build service: the \<open>k\<close>-th \<open>get\<close> of build \<open>b\<close> through proxy \<open>p\<close>
  answers with state \<open>script p b k\<close>, and binds the proxy to the answer as the decorator
  \<open>bind_proxy\<close> does. The clock advances only while \<open>wait\<close> sleeps, and \<open>time.sleep\<close>
  refuses a negative interval.
\<close>

record sworld =
  polls :: "int \<Rightarrow> nat"
  clock :: int

definition scripted :: "(nat \<Rightarrow> int \<Rightarrow> nat \<Rightarrow> string) \<Rightarrow> (int list \<Rightarrow> int list) \<Rightarrow> sworld env" where
  "scripted script order =
     \<lparr>proxy_get = (\<lambda>p b w. (Inr \<lparr>id' = b, state = script p b (polls w b), proxy = Client p\<rparr>,
                             w\<lparr>polls := (polls w)(b := Suc (polls w b))\<rparr>)),
      time_time = clock,
      time_sleep = (\<lambda>iv w. if iv < 0 then (Some ''ValueError'', w)
                            else (None, w\<lparr>clock := clock w + iv\<rparr>)),
      set_iter = order\<rparr>"

definition start :: sworld where
  "start = \<lparr>polls = (\<lambda>b. 0), clock = 0\<rparr>"

section \<open>Reading the trace\<close>

text \<open>The identifiers whose fetched state was \<open>failed\<close>, in the order of the fetches.\<close>

fun failed_in :: "event list \<Rightarrow> int list" where
  "failed_in [] = []"
| "failed_in (Get p b (Inr m) # es) = (if state m = ''failed'' then b # failed_in es else failed_in es)"
| "failed_in (e # es) = failed_in es"

text \<open>A fetch that answered with state \<open>unknown\<close>.\<close>

fun unknown_fetch :: "event \<Rightarrow> bool" where
  "unknown_fetch (Get p b (Inr m)) = (state m = ''unknown'')"
| "unknown_fetch e = False"

text \<open>
  Either no fetch of the trace answered \<open>unknown\<close>, or the last call of the trace is the only
  such fetch and \<open>wait\<close> raised its exception for it.
\<close>

definition unknown_last :: "outcome \<Rightarrow> event list \<Rightarrow> bool" where
  "unknown_last out tr \<longleftrightarrow>
     (\<forall>e\<in>set tr. \<not> unknown_fetch e)
     \<or> (out = Raise (CoprException ''Unknown status.'')
        \<and> (\<exists>pre ev. tr = pre @ [ev] \<and> unknown_fetch ev \<and> (\<forall>e\<in>set pre. \<not> unknown_fetch e)))"

text \<open>The calls of \<open>proxy.get\<close> in a trace.\<close>

fun is_get :: "event \<Rightarrow> bool" where
  "is_get (Get p b x) = True"
| "is_get e = False"

text \<open>
  The trace ends with a reading of the clock, other than the first one of line 102, that shows
  the deadline \<open>terminate\<close> reached.
\<close>

definition deadline_hit :: "int \<Rightarrow> event list \<Rightarrow> bool" where
  "deadline_hit terminate tr \<longleftrightarrow> (\<exists>pre t. tr = pre @ [Clock t] \<and> pre \<noteq> [] \<and> terminate \<le> t)"

text \<open>
  What holds of the session when one pass through the loop ends with \<open>out\<close>: the exception
  \<open>Timeouted\<close> goes with a nonzero timeout, a reached deadline and a build still watched, and
  \<open>wait\<close> itself raises no other \<open>CoprException\<close> than its two.
\<close>

definition timeout_checked ::
  "'w callback option \<Rightarrow> int \<Rightarrow> int \<Rightarrow> outcome \<Rightarrow> 'w session \<Rightarrow> bool" where
  "timeout_checked callback timeout terminate out s \<longleftrightarrow>
     (out = Raise (CoprException ''Timeouted'') \<longleftrightarrow> timeout \<noteq> 0 \<and> deadline_hit terminate (trace s))
     \<and> (out = Raise (CoprException ''Timeouted'') \<longrightarrow>
          watched s \<noteq> []
          \<and> (callback \<noteq> None \<longrightarrow> (\<exists>pre ms t. trace s = pre @ [Callback ms, Clock t])))
     \<and> (\<forall>msg. out = Raise (CoprException msg) \<longrightarrow> msg = ''Unknown status.'' \<or> msg = ''Timeouted'')"

text \<open>How the pass through the loop that ended the run with \<open>x\<close> came out.\<close>

fun ended_as :: "exn + munch list \<Rightarrow> outcome" where
  "ended_as (Inl e) = Raise e"
| "ended_as (Inr ms) = Return ms"

text \<open>
  The class of an exception, which is what an \<open>except\<close> clause of the caller selects on; a
  propagated exception is described by the name of its class.
\<close>

fun exn_class :: "exn \<Rightarrow> string" where
  "exn_class (CoprException msg) = ''CoprException''"
| "exn_class AttributeError = ''AttributeError''"
| "exn_class KeyError = ''KeyError''"
| "exn_class (Propagated err) = err"

text \<open>
  What Python promises of the iteration over a set: every element once, and nothing else.
\<close>

definition iterates_sets :: "'w env \<Rightarrow> bool" where
  "iterates_sets env \<longleftrightarrow>
     (\<forall>xs. distinct xs \<longrightarrow> distinct (set_iter env xs) \<and> set (set_iter env xs) = set xs)"

text \<open>The latest snapshot of every build, brought up to date by one call of the trace.\<close>

fun learn :: "(int \<rightharpoonup> munch) \<Rightarrow> event \<Rightarrow> (int \<rightharpoonup> munch)" where
  "learn cur (Get p b (Inr build)) = cur(b \<mapsto> build)"
| "learn cur e = cur"

text \<open>
  Every fetch of the trace went through the proxy bound to the latest snapshot of its build,
  or, when that snapshot has no \<open>__proxy__\<close>, through the proxy of the waitable.
\<close>

fun fetch_paths :: "waitable \<Rightarrow> (int \<rightharpoonup> munch) \<Rightarrow> event list \<Rightarrow> bool" where
  "fetch_paths waitable cur [] = True"
| "fetch_paths waitable cur (Get p b x # es) =
     ((case cur b of
         None \<Rightarrow> False
       | Some m \<Rightarrow> (if proxy m \<noteq> NoAttr then proxy m = Client p
                    else waitable_proxy waitable = Client p))
      \<and> fetch_paths waitable (learn cur (Get p b x)) es)"
| "fetch_paths waitable cur (e # es) = fetch_paths waitable (learn cur e) es"

text \<open>The trace so far obeys \<open>fetch_paths\<close>, and replaying it gives the dictionary \<open>munches\<close>.\<close>

definition paths_inv :: "waitable \<Rightarrow> (int \<rightharpoonup> munch) \<Rightarrow> 'w session \<Rightarrow> bool" where
  "paths_inv wt cur s \<longleftrightarrow>
     fetch_paths wt cur (trace s) \<and> foldl learn cur (trace s) = map_of (munches s)"

text \<open>
  A proxy whose \<open>get\<close> is not decorated with \<open>bind_proxy\<close>: its answers carry no
  \<open>__proxy__\<close>.
\<close>

definition unbound :: "'w env \<Rightarrow> 'w env" where
  "unbound env =
     env\<lparr>proxy_get := (\<lambda>p b w. case proxy_get env p b w of
                                   (Inr m, w') \<Rightarrow> (Inr (m\<lparr>proxy := NoAttr\<rparr>), w')
                                 | (Inl err, w') \<Rightarrow> (Inl err, w'))\<rparr>"

text \<open>Every answer of \<open>proxy.get\<close> carries a \<open>__proxy__\<close>, as \<open>bind_proxy\<close> sees to.\<close>

definition binds_proxy :: "'w env \<Rightarrow> bool" where
  "binds_proxy env \<longleftrightarrow> (\<forall>p b w m w'. proxy_get env p b w = (Inr m, w') \<longrightarrow> proxy m \<noteq> NoAttr)"

text \<open>A snapshot without \<open>__proxy__\<close> is in the dictionary only if the build \<open>j\<close> has none either.\<close>

definition fallback_unused :: "munch \<Rightarrow> 'w session \<Rightarrow> bool" where
  "fallback_unused j s \<longleftrightarrow>
     (\<forall>b m. map_of (munches s) b = Some m \<and> proxy m = NoAttr \<longrightarrow> proxy j = NoAttr)"

text \<open>
  The shape of a round in the trace when a callback is given: first the fetches, then the
  one call of the callback with the values of the dictionary as they then are, then at most
  readings of the clock, then the sleep that ends the round.
\<close>

datatype phase = Polling | Called

fun allowed :: "phase \<Rightarrow> (int \<times> munch) list \<Rightarrow> event \<Rightarrow> bool" where
  "allowed ph d (Get p b x) = (ph = Polling)"
| "allowed ph d (Callback ms) = (ph = Polling \<and> ms = dict_values d)"
| "allowed ph d (Clock t) = (ph = Called)"
| "allowed ph d (Sleep iv) = (ph = Called)"

fun turn :: "phase \<Rightarrow> event \<Rightarrow> phase" where
  "turn ph (Get p b x) = Polling"
| "turn ph (Callback ms) = Called"
| "turn ph (Clock t) = Called"
| "turn ph (Sleep iv) = Polling"

fun store :: "(int \<times> munch) list \<Rightarrow> event \<Rightarrow> (int \<times> munch) list" where
  "store d (Get p b (Inr build)) = dict_set d b build"
| "store d e = d"

fun callbacks_ok :: "phase \<Rightarrow> (int \<times> munch) list \<Rightarrow> event list \<Rightarrow> bool" where
  "callbacks_ok ph d [] = True"
| "callbacks_ok ph d (e # es) = (allowed ph d e \<and> callbacks_ok (turn ph e) (store d e) es)"

fun is_callback :: "event \<Rightarrow> bool" where
  "is_callback (Callback ms) = True"
| "is_callback e = False"

text \<open>
  The trace after the first reading of the clock has that shape up to the phase \<open>ph\<close>, it
  accounts for the dictionary \<open>munches\<close>, and every callback so far got \<open>k\<close> snapshots, which
  is the size of the dictionary.
\<close>

definition shape_inv :: "(int \<times> munch) list \<Rightarrow> phase \<Rightarrow> 'w session \<Rightarrow> bool" where
  "shape_inv d0 ph s \<longleftrightarrow>
     trace s \<noteq> []
     \<and> callbacks_ok Polling d0 (tl (trace s))
     \<and> foldl turn Polling (tl (trace s)) = ph
     \<and> foldl store d0 (tl (trace s)) = munches s
     \<and> length (munches s) = length d0
     \<and> (\<forall>ms. Callback ms \<in> set (trace s) \<longrightarrow> length ms = length d0)"

text \<open>A run that returns has called the callback last, with the list it returns.\<close>

definition called_last :: "(int \<times> munch) list \<Rightarrow> outcome \<Rightarrow> 'w session \<Rightarrow> bool" where
  "called_last d0 out s \<longleftrightarrow>
     (\<exists>ph. shape_inv d0 ph s) \<and> (\<forall>res. out = Return res \<longrightarrow> (\<exists>pre. trace s = pre @ [Callback res]))"

text \<open>An answer of a fetch that shows a terminal state.\<close>

fun ended :: "string + munch \<Rightarrow> bool" where
  "ended (Inr m) = (state m \<in> set terminal_states)"
| "ended (Inl err) = False"

text \<open>
  Reading the fetches of a trace round by round. The reader keeps the builds watched and the
  builds fetched so far in the current round: a fetch must be of a watched build not yet
  fetched in this round, and it ends the watching when its answer is terminal; a sleep ends
  the round, by when every build still watched must have been fetched.
\<close>

fun fallowed :: "int list \<times> int list \<Rightarrow> event \<Rightarrow> bool" where
  "fallowed (ws, acc) (Get p b x) = (b \<in> set ws \<and> b \<notin> set acc)"
| "fallowed (ws, acc) (Sleep iv) = (set ws \<subseteq> set acc)"
| "fallowed (ws, acc) e = True"

fun fturn :: "int list \<times> int list \<Rightarrow> event \<Rightarrow> int list \<times> int list" where
  "fturn (ws, acc) (Get p b x) = (if ended x then removeAll b ws else ws, b # acc)"
| "fturn (ws, acc) (Sleep iv) = (ws, [])"
| "fturn (ws, acc) e = (ws, acc)"

fun fetches_ok :: "int list \<times> int list \<Rightarrow> event list \<Rightarrow> bool" where
  "fetches_ok st [] = True"
| "fetches_ok st (e # es) = (fallowed st e \<and> fetches_ok (fturn st e) es)"

text \<open>
  A build fetched in a terminal state is not fetched again, is no longer watched, and its
  snapshot stays in the dictionary.
\<close>

definition never_again :: "'w session \<Rightarrow> bool" where
  "never_again s \<longleftrightarrow>
     (\<forall>xs p b m ys. trace s = xs @ Get p b (Inr m) # ys \<and> state m \<in> set terminal_states
        \<longrightarrow> (\<forall>q x. Get q b x \<notin> set ys) \<and> b \<notin> set (watched s)
            \<and> map_of (munches s) b = Some m)"

text \<open>
  What holds of the session throughout a run that started watching \<open>w0\<close>, with \<open>acc\<close> the
  builds fetched in the current round.
\<close>

definition core :: "int list \<Rightarrow> int list \<Rightarrow> 'w session \<Rightarrow> bool" where
  "core w0 acc s \<longleftrightarrow>
     distinct (watched s)
     \<and> fetches_ok (w0, []) (trace s)
     \<and> foldl fturn (w0, []) (trace s) = (watched s, acc)
     \<and> never_again s"

text \<open>What holds in the middle of the \<open>for\<close> loop, with \<open>ids\<close> still to be visited.\<close>

definition pending :: "int list \<Rightarrow> int list \<Rightarrow> 'w session \<Rightarrow> bool" where
  "pending acc ids s \<longleftrightarrow>
     distinct ids \<and> set ids \<subseteq> set (watched s) \<and> set ids \<inter> set acc = {}
     \<and> set (watched s) \<subseteq> set acc \<union> set ids"

text \<open>How a round may end: a return leaves nothing watched and gives the dictionary's values.\<close>

definition round_end :: "int list \<Rightarrow> outcome \<Rightarrow> 'w session \<Rightarrow> bool" where
  "round_end w0 out s \<longleftrightarrow>
     (\<exists>acc. core w0 acc s)
     \<and> (\<forall>res. out = Return res \<longrightarrow> watched s = [] \<and> res = dict_values (munches s))"



section \<open>A scripted environment under a clock of its own\<close>

text \<open>
  The scripted build service again, now with a wall clock that runs as it likes:
  \<open>time.time()\<close> shows \<open>clock_at n\<close> once \<open>n\<close> outside calls are over, for an arbitrary
  function \<open>clock_at\<close>. Every \<open>get\<close> and every \<open>time.sleep\<close> is one such call and takes
  whatever time \<open>clock_at\<close> gives it; a callback may let any number of them pass.
\<close>

record tworld =
  gets :: "int \<Rightarrow> nat"
  ticks :: nat







section \<open>Case analysis and invariant rules\<close>

lemma poll_build_cases:
  assumes "poll_build env wt b s = (r, s')"
  obtains
    (nokey) "map_of (munches s) b = None" "r = Some KeyError" "s' = s"
  | (noproxy) m where "map_of (munches s) b = Some m"
      "(if proxy m \<noteq> NoAttr then proxy m else waitable_proxy wt) \<in> {NoAttr, PyNone}" "r = Some AttributeError" "s' = s"
  | (fetch_err) m p err w' where "map_of (munches s) b = Some m"
      "(if proxy m \<noteq> NoAttr then proxy m else waitable_proxy wt) = Client p"
      "proxy_get env p b (world s) = (Inl err, w')" "r = Some (Propagated err)"
      "s' = s\<lparr>world := w', trace := trace s @ [Get p b (Inl err)]\<rparr>"
  | (fetched) m p build w' where "map_of (munches s) b = Some m"
      "(if proxy m \<noteq> NoAttr then proxy m else waitable_proxy wt) = Client p"
      "proxy_get env p b (world s) = (Inr build, w')"
      "world s' = w'" "trace s' = trace s @ [Get p b (Inr build)]"
      "munches s' = dict_set (munches s) b build"
      "failed s' = (if state build = ''failed'' then failed s @ [b] else failed s)"
      "watched s' = (if state build \<in> set terminal_states then removeAll b (watched s) else watched s)"
      "r = (if state build \<in> set terminal_states \<and> b \<notin> set (watched s) then Some KeyError
            else if state build = ''unknown'' then Some (CoprException ''Unknown status.'') else None)"
proof (cases "map_of (munches s) b")
  case None
  with assms have "r = Some KeyError" "s' = s" by (simp_all add: poll_build_def)
  with None show ?thesis by (rule nokey)
next
  case (Some m)
  show ?thesis
  proof (cases "if proxy m \<noteq> NoAttr then proxy m else waitable_proxy wt")
    case NoAttr
    with Some assms have "r = Some AttributeError" "s' = s" by (simp_all add: poll_build_def)
    with Some NoAttr show ?thesis by (intro noproxy[of m]) simp_all
  next
    case PyNone
    with Some assms have "r = Some AttributeError" "s' = s" by (simp_all add: poll_build_def)
    with Some PyNone show ?thesis by (intro noproxy[of m]) simp_all
  next
    case (Client p)
    obtain x w' where g: "proxy_get env p b (world s) = (x, w')"
      by (cases "proxy_get env p b (world s)")
    show ?thesis
    proof (cases x)
      case (Inl err)
      with Some Client g assms have "r = Some (Propagated err)"
        "s' = s\<lparr>world := w', trace := trace s @ [Get p b (Inl err)]\<rparr>"
        by (simp_all add: poll_build_def)
      with Some Client g Inl show ?thesis by (intro fetch_err[of m p err w']) simp_all
    next
      case (Inr build)
      have nu: "state build \<in> set terminal_states \<Longrightarrow> state build \<noteq> ''unknown''"
        by (auto simp: terminal_states_def)
      from Inr Some Client g assms have
        "world s' = w'" "trace s' = trace s @ [Get p b (Inr build)]"
        "munches s' = dict_set (munches s) b build"
        "failed s' = (if state build = ''failed'' then failed s @ [b] else failed s)"
        "watched s' = (if state build \<in> set terminal_states then removeAll b (watched s) else watched s)"
        "r = (if state build \<in> set terminal_states \<and> b \<notin> set (watched s) then Some KeyError
            else if state build = ''unknown'' then Some (CoprException ''Unknown status.'') else None)"
        using nu by (auto simp: poll_build_def Let_def split: if_splits)
      with Some Client g Inr show ?thesis by (intro fetched[of m p build w']) simp_all
    qed
  qed
qed

lemma poll_watched_induct_rule:
  assumes "poll_watched env wt ids s = (r, s')" "I s"
    and step: "\<And>b s r1 s1. I s \<Longrightarrow> b \<in> set ids \<Longrightarrow> poll_build env wt b s = (r1, s1)
                  \<Longrightarrow> (r1 = None \<longrightarrow> I s1) \<and> (\<forall>e. r1 = Some e \<longrightarrow> Q e s1)"
  shows "(r = None \<longrightarrow> I s') \<and> (\<forall>e. r = Some e \<longrightarrow> Q e s')"
  using assms(1,2) step
proof (induction ids arbitrary: s)
  case Nil
  then show ?case by simp
next
  case (Cons b ids)
  obtain r1 s1 where pb: "poll_build env wt b s = (r1, s1)" by (cases "poll_build env wt b s")
  from Cons.prems(3)[OF Cons.prems(2) _ pb]
  have st: "(r1 = None \<longrightarrow> I s1) \<and> (\<forall>e. r1 = Some e \<longrightarrow> Q e s1)" by simp
  show ?case
  proof (cases r1)
    case None
    with pb Cons.prems(1) have "poll_watched env wt ids s1 = (r, s')" by simp
    moreover from None st have "I s1" by simp
    moreover have "(r1 = None \<longrightarrow> I s1) \<and> (\<forall>e. r1 = Some e \<longrightarrow> Q e s1)"
      if "I s" "b' \<in> set ids" "poll_build env wt b' s = (r1, s1)" for b' s r1 s1
      using Cons.prems(3)[OF that(1) _ that(3)] that(2) by simp
    ultimately show ?thesis by (rule Cons.IH[of s1])
  next
    case (Some e)
    with pb Cons.prems(1) have "r = Some e" "s' = s1" by simp_all
    with st Some show ?thesis by simp
  qed
qed

lemma run_callback_cases:
  assumes "run_callback callback s = (r, s')"
  obtains (nocb) "callback = None" "r = None" "s' = s"
  | (called) cb x w' where "callback = Some cb" "cb (dict_values (munches s)) (world s) = (x, w')"
      "r = map_option Propagated x"
      "s' = s\<lparr>world := w', trace := trace s @ [Callback (dict_values (munches s))]\<rparr>"
proof (cases callback)
  case None
  with assms have "r = None" "s' = s" by (simp_all add: run_callback_def)
  with None show ?thesis by (rule nocb)
next
  case (Some cb)
  obtain x w' where c: "cb (dict_values (munches s)) (world s) = (x, w')"
    by (cases "cb (dict_values (munches s)) (world s)")
  with Some assms have "r = map_option Propagated x"
      "s' = s\<lparr>world := w', trace := trace s @ [Callback (dict_values (munches s))]\<rparr>"
    by (simp_all add: run_callback_def)
  with Some c show ?thesis by (rule called)
qed

lemma run_sleep_cases:
  assumes "run_sleep env interval s = (out, s')"
  obtains x w' where "time_sleep env interval (world s) = (x, w')"
    "out = (case x of None \<Rightarrow> Continue | Some err \<Rightarrow> Raise (Propagated err))"
    "s' = s\<lparr>world := w', trace := trace s @ [Sleep interval]\<rparr>"
proof -
  obtain x w' where c: "time_sleep env interval (world s) = (x, w')"
    by (cases "time_sleep env interval (world s)")
  with assms have "out = (case x of None \<Rightarrow> Continue | Some err \<Rightarrow> Raise (Propagated err))"
    "s' = s\<lparr>world := w', trace := trace s @ [Sleep interval]\<rparr>"
    by (simp_all add: run_sleep_def)
  with c show ?thesis by (rule that)
qed

lemma wait_round_cases:
  assumes "wait_round env wt iv cb timeout terminate s = (out, s')"
  obtains
    (poll_raised) e where "poll_watched env wt (set_iter env (watched s)) s = (Some e, s')" "out = Raise e"
  | (callback_raised) s1 e where "poll_watched env wt (set_iter env (watched s)) s = (None, s1)"
      "run_callback cb s1 = (Some e, s')" "out = Raise e"
  | (returned) s1 where "poll_watched env wt (set_iter env (watched s)) s = (None, s1)"
      "run_callback cb s1 = (None, s')" "watched s' = []" "out = Return (dict_values (munches s'))"
  | (timed_out) s1 s2 where "poll_watched env wt (set_iter env (watched s)) s = (None, s1)"
      "run_callback cb s1 = (None, s2)" "watched s2 \<noteq> []" "timeout \<noteq> 0"
      "time_time env (world s2) \<ge> terminate"
      "s' = s2\<lparr>trace := trace s2 @ [Clock (time_time env (world s2))]\<rparr>"
      "out = Raise (CoprException ''Timeouted'')"
  | (slept_checked) s1 s2 where "poll_watched env wt (set_iter env (watched s)) s = (None, s1)"
      "run_callback cb s1 = (None, s2)" "watched s2 \<noteq> []" "timeout \<noteq> 0"
      "time_time env (world s2) < terminate"
      "run_sleep env iv (s2\<lparr>trace := trace s2 @ [Clock (time_time env (world s2))]\<rparr>) = (out, s')"
  | (slept) s1 s2 where "poll_watched env wt (set_iter env (watched s)) s = (None, s1)"
      "run_callback cb s1 = (None, s2)" "watched s2 \<noteq> []" "timeout = 0"
      "run_sleep env iv s2 = (out, s')"
proof -
  obtain r1 s1 where p: "poll_watched env wt (set_iter env (watched s)) s = (r1, s1)"
    by (cases "poll_watched env wt (set_iter env (watched s)) s")
  show ?thesis
  proof (cases r1)
    case (Some e)
    with p assms have "out = Raise e" "s1 = s'" by (auto simp: wait_round_def)
    with p Some show ?thesis by (intro poll_raised[of e]) auto
  next
    case None
    note r1 = None
    obtain r2 s2 where c: "run_callback cb s1 = (r2, s2)" by (cases "run_callback cb s1")
    show ?thesis
    proof (cases r2)
      case (Some e)
      with p r1 c assms have "out = Raise e" "s2 = s'" by (auto simp: wait_round_def)
      with p r1 c Some show ?thesis by (intro callback_raised[of s1 e]) auto
    next
      case None
      note r2 = None
      show ?thesis
      proof (cases "watched s2 = []")
        case True
        with p r1 c r2 assms have "out = Return (dict_values (munches s2))" "s2 = s'"
          by (auto simp: wait_round_def)
        with p r1 c r2 True show ?thesis by (intro returned[of s1]) auto
      next
        case False
        show ?thesis
        proof (cases "timeout = 0")
          case True
          with p r1 c r2 False assms have "run_sleep env iv s2 = (out, s')"
            by (simp add: wait_round_def)
          with p r1 c r2 False True show ?thesis by (intro slept[of s1 s2]) simp_all
        next
          case nz: False
          show ?thesis
          proof (cases "time_time env (world s2) \<ge> terminate")
            case True
            with p r1 c r2 False nz assms have "out = Raise (CoprException ''Timeouted'')"
              "s' = s2\<lparr>trace := trace s2 @ [Clock (time_time env (world s2))]\<rparr>"
              by (simp_all add: wait_round_def Let_def)
            with p r1 c r2 False nz True show ?thesis by (intro timed_out[of s1 s2]) simp_all
          next
            case lt: False
            with p r1 c r2 False nz assms have
              "run_sleep env iv (s2\<lparr>trace := trace s2 @ [Clock (time_time env (world s2))]\<rparr>) = (out, s')"
              by (simp add: wait_round_def Let_def)
            with p r1 c r2 False nz lt show ?thesis by (intro slept_checked[of s1 s2]) simp_all
          qed
        qed
      qed
    qed
  qed
qed

lemma wait_loop_induct_rule:
  assumes "wait_loop n env wt iv cb timeout terminate s = (r, s')" "I s"
    and step: "\<And>s out s1. I s \<Longrightarrow> wait_round env wt iv cb timeout terminate s = (out, s1)
                  \<Longrightarrow> (out = Continue \<longrightarrow> I s1) \<and> (out \<noteq> Continue \<longrightarrow> Q out s1)"
  shows "(r = None \<longrightarrow> I s') \<and> (\<forall>ms. r = Some (Inr ms) \<longrightarrow> Q (Return ms) s')
         \<and> (\<forall>e. r = Some (Inl e) \<longrightarrow> Q (Raise e) s')"
  using assms(1,2)
proof (induction n arbitrary: s)
  case 0
  then show ?case by simp
next
  case (Suc n)
  obtain out s1 where wr: "wait_round env wt iv cb timeout terminate s = (out, s1)"
    by (cases "wait_round env wt iv cb timeout terminate s")
  from step[OF Suc.prems(2) wr]
  have st: "(out = Continue \<longrightarrow> I s1) \<and> (out \<noteq> Continue \<longrightarrow> Q out s1)" .
  show ?case
  proof (cases out)
    case Continue
    with wr Suc.prems(1) have "wait_loop n env wt iv cb timeout terminate s1 = (r, s')" by simp
    moreover from Continue st have "I s1" by simp
    ultimately show ?thesis by (rule Suc.IH)
  next
    case (Return ms)
    with wr Suc.prems(1) have "r = Some (Inr ms)" "s' = s1" by simp_all
    with st Return show ?thesis by simp
  next
    case (Raise e)
    with wr Suc.prems(1) have "r = Some (Inl e)" "s' = s1" by simp_all
    with st Raise show ?thesis by simp
  qed
qed

lemma wait_loop_add:
  "wait_loop (n + k) env wt iv cb timeout terminate s
     = (case wait_loop n env wt iv cb timeout terminate s of
          (None, s1) \<Rightarrow> wait_loop k env wt iv cb timeout terminate s1
        | (Some x, s1) \<Rightarrow> (Some x, s1))"
proof (induction n arbitrary: s)
  case 0
  show ?case by simp
next
  case (Suc n)
  obtain out s1 where wr: "wait_round env wt iv cb timeout terminate s = (out, s1)"
    by (cases "wait_round env wt iv cb timeout terminate s")
  then show ?case by (cases out) (simp_all add: Suc.IH)
qed

section \<open>The list of failed builds\<close>

lemma failed_in_append: "failed_in (xs @ ys) = failed_in xs @ failed_in ys"
  by (induction xs rule: failed_in.induct) simp_all

lemma poll_build_failed:
  assumes "poll_build env wt b s = (r, s')" "failed s = failed_in (trace s)"
  shows "failed s' = failed_in (trace s')"
  using assms(1)
proof (cases rule: poll_build_cases)
  case (fetched m p build w')
  with assms(2) show ?thesis by (simp add: failed_in_append)
qed (use assms(2) in \<open>simp_all add: failed_in_append\<close>)

lemma poll_watched_failed:
  assumes "poll_watched env wt ids s = (r, s')" "failed s = failed_in (trace s)"
  shows "failed s' = failed_in (trace s')"
proof -
  have "(r = None \<longrightarrow> failed s' = failed_in (trace s')) \<and> (\<forall>e. r = Some e \<longrightarrow> failed s' = failed_in (trace s'))"
    using assms
    by (rule poll_watched_induct_rule[where I="\<lambda>s. failed s = failed_in (trace s)"
          and Q="\<lambda>e s. failed s = failed_in (trace s)"]) (auto dest: poll_build_failed)
  then show ?thesis by (cases r) auto
qed

lemma run_callback_failed:
  assumes "run_callback cb s = (r, s')" "failed s = failed_in (trace s)"
  shows "failed s' = failed_in (trace s')"
  using assms(1) by (cases rule: run_callback_cases) (use assms(2) in \<open>simp_all add: failed_in_append\<close>)

lemma run_sleep_failed:
  assumes "run_sleep env iv s = (r, s')" "failed s = failed_in (trace s)"
  shows "failed s' = failed_in (trace s')"
  using assms(1) by (cases rule: run_sleep_cases) (use assms(2) in \<open>simp_all add: failed_in_append\<close>)

lemma wait_round_failed:
  assumes "wait_round env wt iv cb timeout terminate s = (out, s')" "failed s = failed_in (trace s)"
  shows "failed s' = failed_in (trace s')"
  using assms(1)
proof (cases rule: wait_round_cases)
  case (poll_raised e)
  then show ?thesis using assms(2) poll_watched_failed by blast
next
  case (callback_raised s1 e)
  then show ?thesis using assms(2) poll_watched_failed run_callback_failed by blast
next
  case (returned s1)
  then show ?thesis using assms(2) poll_watched_failed run_callback_failed by blast
next
  case (timed_out s1 s2)
  then have "failed s2 = failed_in (trace s2)"
    using assms(2) poll_watched_failed run_callback_failed by blast
  with timed_out show ?thesis by (simp add: failed_in_append)
next
  case (slept_checked s1 s2)
  then have "failed s2 = failed_in (trace s2)"
    using assms(2) poll_watched_failed run_callback_failed by blast
  then have "failed (s2\<lparr>trace := trace s2 @ [Clock (time_time env (world s2))]\<rparr>)
     = failed_in (trace (s2\<lparr>trace := trace s2 @ [Clock (time_time env (world s2))]\<rparr>))"
    by (simp add: failed_in_append)
  with slept_checked(6) show ?thesis by (rule run_sleep_failed)
next
  case (slept s1 s2)
  then have "failed s2 = failed_in (trace s2)"
    using assms(2) poll_watched_failed run_callback_failed by blast
  with slept(5) show ?thesis by (rule run_sleep_failed)
qed

lemma wait_loop_failed:
  assumes "wait_loop n env wt iv cb timeout terminate s = (r, s')" "failed s = failed_in (trace s)"
  shows "failed s' = failed_in (trace s')"
proof -
  have "(r = None \<longrightarrow> failed s' = failed_in (trace s'))
      \<and> (\<forall>ms. r = Some (Inr ms) \<longrightarrow> failed s' = failed_in (trace s'))
      \<and> (\<forall>e. r = Some (Inl e) \<longrightarrow> failed s' = failed_in (trace s'))"
    using assms
    by (rule wait_loop_induct_rule[where I="\<lambda>s. failed s = failed_in (trace s)"
          and Q="\<lambda>out s. failed s = failed_in (trace s)"]) (auto dest: wait_round_failed)
  then show ?thesis by (cases r) (auto, metis sum.exhaust)
qed

lemma poll_build_failed_goes_on:
  assumes "map_of (munches s) b = Some m"
    and "(if proxy m \<noteq> NoAttr then proxy m else waitable_proxy wt) = Client p"
    and "proxy_get env p b (world s) = (Inr build, w')"
    and "state build = ''failed''" and "b \<in> set (watched s)"
  shows "fst (poll_build env wt b s) = None"
    and "failed (snd (poll_build env wt b s)) = failed s @ [b]"
proof -
  obtain r s' where pb: "poll_build env wt b s = (r, s')" by (cases "poll_build env wt b s")
  from pb have "r = None \<and> failed s' = failed s @ [b]"
  proof (cases rule: poll_build_cases)
    case nokey
    with assms(1) show ?thesis by simp
  next
    case (noproxy m')
    from noproxy(1) assms(1) have "m' = m" by simp
    with noproxy(2) assms(2) have False by (auto split: if_splits)
    then show ?thesis ..
  next
    case (fetch_err m' q err w1)
    from fetch_err(1) assms(1) have "m' = m" by simp
    with fetch_err(2) assms(2) have "q = p" by (auto split: if_splits)
    with fetch_err(3) assms(3) have False by simp
    then show ?thesis ..
  next
    case (fetched m' q build' w1)
    from fetched(1) assms(1) have "m' = m" by simp
    with fetched(2) assms(2) have "q = p" by (auto split: if_splits)
    with fetched(3) assms(3) have "build' = build" by simp
    with fetched(7,9) assms(4,5) show ?thesis by (simp add: terminal_states_def)
  qed
  with pb show "fst (poll_build env wt b s) = None"
    and "failed (snd (poll_build env wt b s)) = failed s @ [b]"
    by simp_all
qed

text \<open>
  Claim C6, as amended: after any number of rounds the list \<open>failed\<close> holds exactly the
  identifiers whose fetched state was \<open>failed\<close>, one entry per such fetch and in fetch order;
  a fetched state \<open>canceled\<close> adds nothing to it. The fetch of a watched build in state
  \<open>failed\<close> raises nothing, so that the loop goes on to the other builds.
\<close>

theorem failed_list_is_failed_fetches:
  "failed (snd (wait n env waitable interval callback timeout w))
     = failed_in (trace (snd (wait n env waitable interval callback timeout w)))
   \<and> (\<forall>s b m p build w'.
         map_of (munches s) b = Some m
         \<and> (if proxy m \<noteq> NoAttr then proxy m else waitable_proxy waitable) = Client p
         \<and> proxy_get env p b (world s) = (Inr build, w')
         \<and> state build = ''failed'' \<and> b \<in> set (watched s)
         \<longrightarrow> fst (poll_build env waitable b s) = None
             \<and> failed (snd (poll_build env waitable b s)) = failed s @ [b])"
proof -
  obtain r s' where w: "wait n env waitable interval callback timeout w = (r, s')"
    by (cases "wait n env waitable interval callback timeout w")
  have "failed (init env waitable w) = failed_in (trace (init env waitable w))"
    by (simp add: init_def Let_def)
  with w have "failed s' = failed_in (trace s')"
    unfolding wait_def by (rule wait_loop_failed)
  with w have 1: "failed (snd (wait n env waitable interval callback timeout w))
     = failed_in (trace (snd (wait n env waitable interval callback timeout w)))"
    by simp
  have 2: "\<forall>s b m p build w'.
         map_of (munches s) b = Some m
         \<and> (if proxy m \<noteq> NoAttr then proxy m else waitable_proxy waitable) = Client p
         \<and> proxy_get env p b (world s) = (Inr build, w')
         \<and> state build = ''failed'' \<and> b \<in> set (watched s)
         \<longrightarrow> fst (poll_build env waitable b s) = None
             \<and> failed (snd (poll_build env waitable b s)) = failed s @ [b]"
    by (intro allI impI conjI; elim conjE; rule poll_build_failed_goes_on; assumption)
  from 1 2 show ?thesis by (rule conjI)
qed

theorem failed_list_is_failed_fetches_witness:
  "fst (wait (Suc 0) (scripted (\<lambda>p b k. if b = 1 then ''failed'' else ''succeeded'') (\<lambda>xs. xs))
          (Many [\<lparr>id' = 1, state = ''pending'', proxy = Client 0\<rparr>,
                 \<lparr>id' = 2, state = ''pending'', proxy = Client 0\<rparr>] NoAttr) 30 None 0 start)
     = Some (Inr [\<lparr>id' = 1, state = ''failed'', proxy = Client 0\<rparr>,
                  \<lparr>id' = 2, state = ''succeeded'', proxy = Client 0\<rparr>])
   \<and> failed (snd (wait (Suc 0) (scripted (\<lambda>p b k. if b = 1 then ''failed'' else ''succeeded'') (\<lambda>xs. xs))
          (Many [\<lparr>id' = 1, state = ''pending'', proxy = Client 0\<rparr>,
                 \<lparr>id' = 2, state = ''pending'', proxy = Client 0\<rparr>] NoAttr) 30 None 0 start))
     = [1]
   \<and> fst (poll_build (scripted (\<lambda>p b k. if b = 1 then ''failed'' else ''succeeded'') (\<lambda>xs. xs))
          (Many [\<lparr>id' = 1, state = ''pending'', proxy = Client 0\<rparr>,
                 \<lparr>id' = 2, state = ''pending'', proxy = Client 0\<rparr>] NoAttr) 1
          (init (scripted (\<lambda>p b k. if b = 1 then ''failed'' else ''succeeded'') (\<lambda>xs. xs))
             (Many [\<lparr>id' = 1, state = ''pending'', proxy = Client 0\<rparr>,
                    \<lparr>id' = 2, state = ''pending'', proxy = Client 0\<rparr>] NoAttr) start))
     = None"
proof -
  let ?env = "scripted (\<lambda>p b k. if b = 1 then ''failed'' else ''succeeded'') (\<lambda>xs. xs)"
  let ?wt = "Many [\<lparr>id' = 1, state = ''pending'', proxy = Client 0\<rparr>,
                   \<lparr>id' = 2, state = ''pending'', proxy = Client 0\<rparr>] NoAttr"
  let ?run = "wait (Suc 0) ?env ?wt 30 None 0 start"
  let ?s0 = "init ?env ?wt start"
  note inst = failed_list_is_failed_fetches[of "Suc 0" ?env ?wt 30 None 0 start]
  have res: "fst ?run = Some (Inr [\<lparr>id' = 1, state = ''failed'', proxy = Client 0\<rparr>,
                  \<lparr>id' = 2, state = ''succeeded'', proxy = Client 0\<rparr>])"
    and tr: "trace (snd ?run) = [Clock 0,
        Get 0 1 (Inr \<lparr>id' = 1, state = ''failed'', proxy = Client 0\<rparr>),
        Get 0 2 (Inr \<lparr>id' = 2, state = ''succeeded'', proxy = Client 0\<rparr>)]"
    by (simp_all add: wait_def init_def dict_def wait_round_def poll_build_def run_callback_def
        run_sleep_def scripted_def start_def terminal_states_def dict_values_def Let_def)
  from inst tr have f: "failed (snd ?run) = [1]" by simp
  have h: "map_of (munches ?s0) 1 = Some \<lparr>id' = 1, state = ''pending'', proxy = Client 0\<rparr>
      \<and> (if proxy \<lparr>id' = 1, state = ''pending'', proxy = Client 0\<rparr> \<noteq> NoAttr
           then proxy \<lparr>id' = 1, state = ''pending'', proxy = Client 0\<rparr>
           else waitable_proxy ?wt) = Client 0
      \<and> proxy_get ?env 0 1 (world ?s0)
          = (Inr \<lparr>id' = 1, state = ''failed'', proxy = Client 0\<rparr>,
             (world ?s0)\<lparr>polls := (polls (world ?s0))(1 := Suc 0)\<rparr>)
      \<and> state \<lparr>id' = 1, state = ''failed'', proxy = Client 0\<rparr> = ''failed''
      \<and> 1 \<in> set (watched ?s0)"
    by (simp add: init_def dict_def scripted_def start_def)
  from inst h have "fst (poll_build ?env ?wt 1 ?s0) = None" by blast
  with res f show ?thesis by (intro conjI)
qed

text \<open>
  Claim C6 as stated fails: a build fetched in state \<open>canceled\<close> leaves the list \<open>failed\<close>
  empty, although \<open>wait\<close> stops watching it and returns.
\<close>

theorem canceled_not_in_failed_counterexample:
  "fst (wait (Suc 0) (scripted (\<lambda>p b k. ''canceled'') (\<lambda>xs. xs))
          (Single \<lparr>id' = 1, state = ''running'', proxy = Client 0\<rparr>) 30 None 0 start)
     = Some (Inr [\<lparr>id' = 1, state = ''canceled'', proxy = Client 0\<rparr>])
   \<and> trace (snd (wait (Suc 0) (scripted (\<lambda>p b k. ''canceled'') (\<lambda>xs. xs))
          (Single \<lparr>id' = 1, state = ''running'', proxy = Client 0\<rparr>) 30 None 0 start))
     = [Clock 0, Get 0 1 (Inr \<lparr>id' = 1, state = ''canceled'', proxy = Client 0\<rparr>)]
   \<and> failed (snd (wait (Suc 0) (scripted (\<lambda>p b k. ''canceled'') (\<lambda>xs. xs))
          (Single \<lparr>id' = 1, state = ''running'', proxy = Client 0\<rparr>) 30 None 0 start))
     = []"
  by (simp add: wait_def init_def dict_def wait_round_def poll_build_def run_callback_def
      scripted_def start_def terminal_states_def dict_values_def)

section \<open>An unknown state aborts the wait\<close>

lemma poll_build_unknown:
  assumes "poll_build env wt b s = (r, s')" "\<forall>e\<in>set (trace s). \<not> unknown_fetch e"
  shows "(r = None \<longrightarrow> (\<forall>e\<in>set (trace s'). \<not> unknown_fetch e))
       \<and> (\<forall>x. r = Some x \<longrightarrow> (\<forall>e\<in>set (trace s'). \<not> unknown_fetch e)
              \<or> (x = CoprException ''Unknown status.''
                  \<and> (\<exists>pre ev. trace s' = pre @ [ev] \<and> unknown_fetch ev
                        \<and> (\<forall>e\<in>set pre. \<not> unknown_fetch e))))"
  using assms(1)
proof (cases rule: poll_build_cases)
  case (fetched m p build w')
  have nt: "state build = ''unknown'' \<Longrightarrow> state build \<notin> set terminal_states"
    by (simp add: terminal_states_def)
  show ?thesis
  proof (cases "state build = ''unknown''")
    case True
    with fetched nt have "r = Some (CoprException ''Unknown status.'')" by simp
    moreover from fetched True assms(2)
    have "\<exists>pre ev. trace s' = pre @ [ev] \<and> unknown_fetch ev \<and> (\<forall>e\<in>set pre. \<not> unknown_fetch e)"
      by (intro exI[of _ "trace s"] exI[of _ "Get p b (Inr build)"]) simp
    ultimately show ?thesis by simp
  next
    case False
    with fetched assms(2) have "\<forall>e\<in>set (trace s'). \<not> unknown_fetch e" by simp
    then show ?thesis by simp
  qed
qed (use assms(2) in simp_all)

lemma poll_watched_unknown:
  assumes "poll_watched env wt ids s = (r, s')" "\<forall>e\<in>set (trace s). \<not> unknown_fetch e"
  shows "(r = None \<longrightarrow> (\<forall>e\<in>set (trace s'). \<not> unknown_fetch e))
       \<and> (\<forall>x. r = Some x \<longrightarrow> unknown_last (Raise x) (trace s'))"
  using assms
proof (rule poll_watched_induct_rule[where I="\<lambda>s. \<forall>e\<in>set (trace s). \<not> unknown_fetch e"
          and Q="\<lambda>x s. unknown_last (Raise x) (trace s)"])
  fix b s r1 s1
  assume "\<forall>e\<in>set (trace s). \<not> unknown_fetch e" "poll_build env wt b s = (r1, s1)"
  from poll_build_unknown[OF this(2,1)]
  show "(r1 = None \<longrightarrow> (\<forall>e\<in>set (trace s1). \<not> unknown_fetch e))
      \<and> (\<forall>e. r1 = Some e \<longrightarrow> unknown_last (Raise e) (trace s1))"
    unfolding unknown_last_def by simp
qed

lemma run_callback_unknown:
  assumes "run_callback cb s = (r, s')" "\<forall>e\<in>set (trace s). \<not> unknown_fetch e"
  shows "\<forall>e\<in>set (trace s'). \<not> unknown_fetch e"
  using assms(1) by (cases rule: run_callback_cases) (use assms(2) in simp_all)

lemma run_sleep_unknown:
  assumes "run_sleep env iv s = (r, s')" "\<forall>e\<in>set (trace s). \<not> unknown_fetch e"
  shows "\<forall>e\<in>set (trace s'). \<not> unknown_fetch e"
  using assms(1) by (cases rule: run_sleep_cases) (use assms(2) in simp_all)

lemma wait_round_unknown:
  assumes "wait_round env wt iv cb timeout terminate s = (out, s')"
    "\<forall>e\<in>set (trace s). \<not> unknown_fetch e"
  shows "(out = Continue \<longrightarrow> (\<forall>e\<in>set (trace s'). \<not> unknown_fetch e))
       \<and> (out \<noteq> Continue \<longrightarrow> unknown_last out (trace s'))"
  using assms(1)
proof (cases rule: wait_round_cases)
  case (poll_raised e)
  with poll_watched_unknown[OF poll_raised(1) assms(2)] show ?thesis by simp
next
  case (callback_raised s1 e)
  with poll_watched_unknown[OF callback_raised(1) assms(2)]
  have "\<forall>e\<in>set (trace s1). \<not> unknown_fetch e" by simp
  with callback_raised have "\<forall>e\<in>set (trace s'). \<not> unknown_fetch e"
    using run_callback_unknown by blast
  with callback_raised show ?thesis by (simp add: unknown_last_def)
next
  case (returned s1)
  with poll_watched_unknown[OF returned(1) assms(2)]
  have "\<forall>e\<in>set (trace s1). \<not> unknown_fetch e" by simp
  with returned have "\<forall>e\<in>set (trace s'). \<not> unknown_fetch e"
    using run_callback_unknown by blast
  with returned show ?thesis by (simp add: unknown_last_def)
next
  case (timed_out s1 s2)
  with poll_watched_unknown[OF timed_out(1) assms(2)]
  have "\<forall>e\<in>set (trace s1). \<not> unknown_fetch e" by simp
  with timed_out have "\<forall>e\<in>set (trace s2). \<not> unknown_fetch e"
    using run_callback_unknown by blast
  with timed_out show ?thesis by (simp add: unknown_last_def)
next
  case (slept_checked s1 s2)
  with poll_watched_unknown[OF slept_checked(1) assms(2)]
  have "\<forall>e\<in>set (trace s1). \<not> unknown_fetch e" by simp
  with slept_checked have "\<forall>e\<in>set (trace s2). \<not> unknown_fetch e"
    using run_callback_unknown by blast
  then have "\<forall>e\<in>set (trace (s2\<lparr>trace := trace s2 @ [Clock (time_time env (world s2))]\<rparr>)).
      \<not> unknown_fetch e" by simp
  with slept_checked(6) have "\<forall>e\<in>set (trace s'). \<not> unknown_fetch e"
    by (rule run_sleep_unknown)
  then show ?thesis by (simp add: unknown_last_def)
next
  case (slept s1 s2)
  with poll_watched_unknown[OF slept(1) assms(2)]
  have "\<forall>e\<in>set (trace s1). \<not> unknown_fetch e" by simp
  with slept have "\<forall>e\<in>set (trace s2). \<not> unknown_fetch e"
    using run_callback_unknown by blast
  with slept(5) have "\<forall>e\<in>set (trace s'). \<not> unknown_fetch e"
    by (rule run_sleep_unknown)
  then show ?thesis by (simp add: unknown_last_def)
qed

lemma wait_unknown_last:
  assumes "wait n env wt iv cb timeout w = (r, s)"
  shows "(r = None \<longrightarrow> (\<forall>e\<in>set (trace s). \<not> unknown_fetch e))
       \<and> (\<forall>ms. r = Some (Inr ms) \<longrightarrow> unknown_last (Return ms) (trace s))
       \<and> (\<forall>e. r = Some (Inl e) \<longrightarrow> unknown_last (Raise e) (trace s))"
proof -
  have "\<forall>e\<in>set (trace (init env wt w)). \<not> unknown_fetch e"
    by (simp add: init_def Let_def)
  with assms[unfolded wait_def] show ?thesis
    by (rule wait_loop_induct_rule[where I="\<lambda>s. \<forall>e\<in>set (trace s). \<not> unknown_fetch e"
          and Q="\<lambda>out s. unknown_last out (trace s)"]) (rule wait_round_unknown)
qed

text \<open>
  Claim C2: if some fetch of the run answered with state \<open>unknown\<close>, then \<open>wait\<close> has raised
  its exception \<open>Unknown status.\<close> and returned no list, and that fetch is the last call
  \<open>wait\<close> made: no further fetch, no callback and no sleep follow it, and no earlier fetch
  answered \<open>unknown\<close>.
\<close>

theorem unknown_status_aborts:
  assumes "wait n env waitable interval callback timeout w = (r, s)"
    and "Get p b (Inr m) \<in> set (trace s)"
    and "state m = ''unknown''"
  shows "r = Some (Inl (CoprException ''Unknown status.''))
       \<and> (\<exists>pre. trace s = pre @ [Get p b (Inr m)] \<and> (\<forall>e\<in>set pre. \<not> unknown_fetch e))"
proof -
  from assms(2,3) have ex: "\<not> (\<forall>e\<in>set (trace s). \<not> unknown_fetch e)"
    by (auto intro: bexI[of _ "Get p b (Inr m)"])
  have last: "\<exists>pre. trace s = pre @ [Get p b (Inr m)] \<and> (\<forall>e\<in>set pre. \<not> unknown_fetch e)"
    if "unknown_last out (trace s)" for out
  proof -
    from that ex obtain pre ev where tr: "trace s = pre @ [ev]" "unknown_fetch ev"
      "\<forall>e\<in>set pre. \<not> unknown_fetch e"
      unfolding unknown_last_def by blast
    from assms(2,3) tr have "Get p b (Inr m) = ev" by auto
    with tr show ?thesis by blast
  qed
  note facts = wait_unknown_last[OF assms(1)]
  show ?thesis
  proof (cases r)
    case None
    with facts ex show ?thesis by simp
  next
    case (Some x)
    show ?thesis
    proof (cases x)
      case (Inr ms)
      with Some facts have "unknown_last (Return ms) (trace s)" by simp
      with ex show ?thesis by (simp add: unknown_last_def)
    next
      case (Inl e)
      with Some facts have u: "unknown_last (Raise e) (trace s)" by simp
      with ex have "e = CoprException ''Unknown status.''" by (auto simp: unknown_last_def)
      with Some Inl last[OF u] show ?thesis by simp
    qed
  qed
qed

theorem unknown_status_aborts_witness:
  "Get 0 1 (Inr \<lparr>id' = 1, state = ''unknown'', proxy = Client 0\<rparr>)
     \<in> set (trace (snd (wait (Suc (Suc 0))
            (scripted (\<lambda>p b k. if k = 0 then ''running'' else ''unknown'') (\<lambda>xs. xs))
            (Single \<lparr>id' = 1, state = ''running'', proxy = Client 0\<rparr>) 30 None 0 start)))
   \<and> fst (wait (Suc (Suc 0))
            (scripted (\<lambda>p b k. if k = 0 then ''running'' else ''unknown'') (\<lambda>xs. xs))
            (Single \<lparr>id' = 1, state = ''running'', proxy = Client 0\<rparr>) 30 None 0 start)
       = Some (Inl (CoprException ''Unknown status.''))
   \<and> (\<exists>pre. trace (snd (wait (Suc (Suc 0))
            (scripted (\<lambda>p b k. if k = 0 then ''running'' else ''unknown'') (\<lambda>xs. xs))
            (Single \<lparr>id' = 1, state = ''running'', proxy = Client 0\<rparr>) 30 None 0 start))
          = pre @ [Get 0 1 (Inr \<lparr>id' = 1, state = ''unknown'', proxy = Client 0\<rparr>)]
        \<and> (\<forall>e\<in>set pre. \<not> unknown_fetch e))"
proof -
  let ?run = "wait (Suc (Suc 0))
            (scripted (\<lambda>p b k. if k = 0 then ''running'' else ''unknown'') (\<lambda>xs. xs))
            (Single \<lparr>id' = 1, state = ''running'', proxy = Client 0\<rparr>) 30 None 0 start"
  have tr: "trace (snd ?run) = [Clock 0, Get 0 1 (Inr \<lparr>id' = 1, state = ''running'', proxy = Client 0\<rparr>),
      Sleep 30, Get 0 1 (Inr \<lparr>id' = 1, state = ''unknown'', proxy = Client 0\<rparr>)]"
    by (simp add: wait_def init_def dict_def wait_round_def poll_build_def run_callback_def
        run_sleep_def scripted_def start_def terminal_states_def dict_values_def)
  have h: "Get 0 1 (Inr \<lparr>id' = 1, state = ''unknown'', proxy = Client 0\<rparr>) \<in> set (trace (snd ?run))"
    by (simp add: tr)
  have run: "?run = (fst ?run, snd ?run)" by simp
  from unknown_status_aborts[OF run h] h show ?thesis by simp
qed

section \<open>The deadline\<close>

lemma poll_build_trace:
  assumes "poll_build env wt b s = (r, s')"
  shows "(\<exists>xs. trace s' = trace s @ xs \<and> (\<forall>e\<in>set xs. is_get e))
       \<and> (\<forall>msg. r = Some (CoprException msg) \<longrightarrow> msg = ''Unknown status.'')"
  using assms
proof (cases rule: poll_build_cases)
  case (fetch_err m p err w')
  then show ?thesis by simp
next
  case (fetched m p build w')
  then show ?thesis by simp
qed simp_all

lemma poll_watched_trace:
  assumes "poll_watched env wt ids s = (r, s')"
  shows "\<exists>xs. trace s' = trace s @ xs \<and> (\<forall>e\<in>set xs. is_get e)"
    and "\<forall>msg. r = Some (CoprException msg) \<longrightarrow> msg = ''Unknown status.''"
proof -
  have "(r = None \<longrightarrow> (\<exists>xs. trace s' = trace s @ xs \<and> (\<forall>e\<in>set xs. is_get e)))
      \<and> (\<forall>x. r = Some x \<longrightarrow> (\<exists>xs. trace s' = trace s @ xs \<and> (\<forall>e\<in>set xs. is_get e))
            \<and> (\<forall>msg. x = CoprException msg \<longrightarrow> msg = ''Unknown status.''))"
    using assms
  proof (rule poll_watched_induct_rule[where
        I="\<lambda>u. \<exists>xs. trace u = trace s @ xs \<and> (\<forall>e\<in>set xs. is_get e)"
        and Q="\<lambda>x u. (\<exists>xs. trace u = trace s @ xs \<and> (\<forall>e\<in>set xs. is_get e))
            \<and> (\<forall>msg. x = CoprException msg \<longrightarrow> msg = ''Unknown status.'')"])
    show "\<exists>xs. trace s = trace s @ xs \<and> (\<forall>e\<in>set xs. is_get e)" by simp
  next
    fix b u r1 u1
    assume I: "\<exists>xs. trace u = trace s @ xs \<and> (\<forall>e\<in>set xs. is_get e)"
      and pb: "poll_build env wt b u = (r1, u1)"
    from I obtain xs where xs: "trace u = trace s @ xs" "\<forall>e\<in>set xs. is_get e" by blast
    from poll_build_trace[OF pb] obtain ys where ys: "trace u1 = trace u @ ys"
      "\<forall>e\<in>set ys. is_get e" by blast
    from xs ys have "trace u1 = trace s @ (xs @ ys) \<and> (\<forall>e\<in>set (xs @ ys). is_get e)" by auto
    then have "\<exists>zs. trace u1 = trace s @ zs \<and> (\<forall>e\<in>set zs. is_get e)" by blast
    with poll_build_trace[OF pb]
    show "(r1 = None \<longrightarrow> (\<exists>xs. trace u1 = trace s @ xs \<and> (\<forall>e\<in>set xs. is_get e)))
        \<and> (\<forall>e. r1 = Some e \<longrightarrow> (\<exists>xs. trace u1 = trace s @ xs \<and> (\<forall>e\<in>set xs. is_get e))
            \<and> (\<forall>msg. e = CoprException msg \<longrightarrow> msg = ''Unknown status.''))"
      by simp
  qed
  then show "\<exists>xs. trace s' = trace s @ xs \<and> (\<forall>e\<in>set xs. is_get e)"
    and "\<forall>msg. r = Some (CoprException msg) \<longrightarrow> msg = ''Unknown status.''"
    by (cases r; simp)+
qed

lemma not_deadline_hit_gets:
  assumes "\<not> deadline_hit terminate tr" "\<forall>e\<in>set xs. is_get e"
  shows "\<not> deadline_hit terminate (tr @ xs)"
proof (cases xs rule: rev_cases)
  case Nil
  with assms show ?thesis by simp
next
  case (snoc ys y)
  with assms(2) have "is_get y" by simp
  then have ny: "\<And>t. y \<noteq> Clock t" by auto
  show ?thesis
    unfolding deadline_hit_def
  proof clarify
    fix pre t
    assume "tr @ xs = pre @ [Clock t]"
    with snoc have "(tr @ ys) @ [y] = pre @ [Clock t]" by simp
    then have "y = Clock t" by (simp only: append1_eq_conv)
    with ny show False by blast
  qed
qed

lemma deadline_hit_last:
  assumes "deadline_hit terminate tr"
  shows "\<exists>t. last tr = Clock t"
  using assms by (auto simp: deadline_hit_def)

lemma not_deadline_hit_snoc:
  assumes "\<And>t. e \<noteq> Clock t"
  shows "\<not> deadline_hit terminate (tr @ [e])"
  using assms by (auto simp: deadline_hit_def)

lemma wait_round_timeout:
  assumes wr: "wait_round env wt iv cb timeout terminate s = (out, s')"
    and I: "trace s \<noteq> []" "\<not> deadline_hit terminate (trace s)"
  shows "(out = Continue \<longrightarrow> trace s' \<noteq> [] \<and> \<not> deadline_hit terminate (trace s'))
       \<and> (out \<noteq> Continue \<longrightarrow> timeout_checked cb timeout terminate out s')"
  using wr
proof (cases rule: wait_round_cases)
  case (poll_raised e)
  from poll_watched_trace[OF poll_raised(1)] I(2)
  have "\<not> deadline_hit terminate (trace s')" "e \<noteq> CoprException ''Timeouted''"
    "\<forall>msg. e = CoprException msg \<longrightarrow> msg = ''Unknown status.''"
    by (auto simp: not_deadline_hit_gets)
  with poll_raised show ?thesis by (simp add: timeout_checked_def)
next
  case (callback_raised s1 e)
  from callback_raised(2) have "\<not> deadline_hit terminate (trace s') \<and> (\<exists>err. e = Propagated err)"
    by (cases rule: run_callback_cases)
      (auto simp: not_deadline_hit_snoc map_option_case split: option.splits)
  with callback_raised show ?thesis by (auto simp: timeout_checked_def)
next
  case (returned s1)
  from poll_watched_trace(1)[OF returned(1)] I(2)
  have "\<not> deadline_hit terminate (trace s1)" by (auto simp: not_deadline_hit_gets)
  with returned(2) have "\<not> deadline_hit terminate (trace s')"
    by (cases rule: run_callback_cases) (auto simp: not_deadline_hit_snoc)
  with returned show ?thesis by (simp add: timeout_checked_def)
next
  case (timed_out s1 s2)
  from poll_watched_trace(1)[OF timed_out(1)] I(1) have "trace s1 \<noteq> []" by auto
  with timed_out(2) have ne: "trace s2 \<noteq> []"
    by (cases rule: run_callback_cases) auto
  from timed_out(2) have cbk: "cb \<noteq> None \<longrightarrow> (\<exists>pre ms. trace s2 = pre @ [Callback ms])"
    by (cases rule: run_callback_cases) auto
  from ne timed_out have "deadline_hit terminate (trace s')"
    by (auto simp: deadline_hit_def)
  moreover from cbk timed_out
  have "cb \<noteq> None \<longrightarrow> (\<exists>pre ms t. trace s' = pre @ [Callback ms, Clock t])" by auto
  ultimately show ?thesis using timed_out by (simp add: timeout_checked_def)
next
  case (slept_checked s1 s2)
  from slept_checked(6) have "trace s' \<noteq> [] \<and> \<not> deadline_hit terminate (trace s')
    \<and> (out = Continue \<or> (\<exists>err. out = Raise (Propagated err)))"
    by (cases rule: run_sleep_cases) (auto dest!: deadline_hit_last split: option.splits)
  then show ?thesis by (auto simp: timeout_checked_def)
next
  case (slept s1 s2)
  from slept(5) have "trace s' \<noteq> [] \<and> \<not> deadline_hit terminate (trace s')
    \<and> (out = Continue \<or> (\<exists>err. out = Raise (Propagated err)))"
    by (cases rule: run_sleep_cases) (auto dest!: deadline_hit_last split: option.splits)
  then show ?thesis by (auto simp: timeout_checked_def)
qed

lemma wait_timeout_checked:
  assumes "wait n env wt iv cb timeout w = (r, s)"
  shows "(r = None \<longrightarrow> trace s \<noteq> [] \<and> \<not> deadline_hit (time_time env w + timeout) (trace s))
       \<and> (\<forall>ms. r = Some (Inr ms)
             \<longrightarrow> timeout_checked cb timeout (time_time env w + timeout) (Return ms) s)
       \<and> (\<forall>e. r = Some (Inl e)
             \<longrightarrow> timeout_checked cb timeout (time_time env w + timeout) (Raise e) s)"
proof -
  have "trace (init env wt w) \<noteq> []
      \<and> \<not> deadline_hit (time_time env w + timeout) (trace (init env wt w))"
    by (simp add: init_def Let_def deadline_hit_def)
  with assms[unfolded wait_def] show ?thesis
    by (rule wait_loop_induct_rule[where
          I="\<lambda>s. trace s \<noteq> [] \<and> \<not> deadline_hit (time_time env w + timeout) (trace s)"
          and Q="timeout_checked cb timeout (time_time env w + timeout)"])
      (use wait_round_timeout in blast)
qed

lemma wait_round_returns_when_done:
  assumes "poll_watched env wt (set_iter env (watched s)) s = (None, s1)"
    and "run_callback cb s1 = (None, s2)" and "watched s2 = []"
  shows "wait_round env wt iv cb timeout terminate s = (Return (dict_values (munches s2)), s2)"
  using assms by (simp add: wait_round_def)

lemma wait_round_timeouted:
  assumes wr: "wait_round env wt iv cb timeout terminate s = (out, s')"
  shows "out = Raise (CoprException ''Timeouted'')
       \<longleftrightarrow> timeout \<noteq> 0
           \<and> (\<exists>s1 s2. poll_watched env wt (set_iter env (watched s)) s = (None, s1)
                  \<and> run_callback cb s1 = (None, s2) \<and> watched s2 \<noteq> []
                  \<and> terminate \<le> time_time env (world s2))"
  using wr
proof (cases rule: wait_round_cases)
  case (poll_raised e)
  from poll_watched_trace(2)[OF poll_raised(1)] have "e \<noteq> CoprException ''Timeouted''" by auto
  with poll_raised show ?thesis by simp
next
  case (callback_raised s1 e)
  from callback_raised(2) have "\<exists>err. e = Propagated err"
    by (cases rule: run_callback_cases) (auto simp: map_option_case split: option.splits)
  with callback_raised show ?thesis by auto
next
  case (returned s1)
  then show ?thesis by simp
next
  case (timed_out s1 s2)
  then show ?thesis by simp
next
  case (slept_checked s1 s2)
  from slept_checked(6) have "out = Continue \<or> (\<exists>err. out = Raise (Propagated err))"
    by (cases rule: run_sleep_cases) (auto split: option.splits)
  with slept_checked show ?thesis by auto
next
  case (slept s1 s2)
  from slept(5) have "out = Continue \<or> (\<exists>err. out = Raise (Propagated err))"
    by (cases rule: run_sleep_cases) (auto split: option.splits)
  with slept show ?thesis by auto
qed

lemma wait_loop_last_round:
  assumes "wait_loop n env wt iv cb timeout terminate s = (Some x, s')"
  shows "\<exists>k s0. k < n \<and> wait_loop k env wt iv cb timeout terminate s = (None, s0)
           \<and> wait_round env wt iv cb timeout terminate s0 = (ended_as x, s')"
  using assms
proof (induction n arbitrary: s)
  case 0
  then show ?case by simp
next
  case (Suc n)
  obtain out s1 where wr: "wait_round env wt iv cb timeout terminate s = (out, s1)"
    by (cases "wait_round env wt iv cb timeout terminate s")
  show ?case
  proof (cases out)
    case Continue
    with wr Suc.prems have "wait_loop n env wt iv cb timeout terminate s1 = (Some x, s')" by simp
    from Suc.IH[OF this] obtain k s0 where k: "k < n"
      and run: "wait_loop k env wt iv cb timeout terminate s1 = (None, s0)"
      and last: "wait_round env wt iv cb timeout terminate s0 = (ended_as x, s')"
      by blast
    from wr Continue run have "wait_loop (Suc k) env wt iv cb timeout terminate s = (None, s0)"
      by simp
    with k last show ?thesis by (intro exI[of _ "Suc k"] exI[of _ s0]) simp
  next
    case (Return ms)
    with wr Suc.prems have "x = Inr ms" "s' = s1" by simp_all
    with wr Return show ?thesis by (intro exI[of _ 0] exI[of _ s]) simp
  next
    case (Raise e)
    with wr Suc.prems have "x = Inl e" "s' = s1" by simp_all
    with wr Raise show ?thesis by (intro exI[of _ 0] exI[of _ s]) simp
  qed
qed

lemma wait_loop_ends:
  assumes "k < n" and "wait_loop k env wt iv cb timeout terminate s = (None, s0)"
    and "wait_round env wt iv cb timeout terminate s0 = (ended_as x, s')"
  shows "wait_loop n env wt iv cb timeout terminate s = (Some x, s')"
proof -
  from assms(3) have one: "wait_loop (Suc 0) env wt iv cb timeout terminate s0 = (Some x, s')"
    by (cases x) simp_all
  from assms(1) obtain d where n: "n = k + Suc d" by (auto simp: less_iff_Suc_add)
  have "wait_loop (k + Suc 0) env wt iv cb timeout terminate s = (Some x, s')"
    using assms(2) one by (simp only: wait_loop_add split: prod.splits option.splits) simp
  then have "wait_loop ((k + Suc 0) + d) env wt iv cb timeout terminate s = (Some x, s')"
    by (simp only: wait_loop_add[of "k + Suc 0" d]) simp
  with n show ?thesis by simp
qed

lemma wait_loop_timeouted:
  assumes "wait_loop n env wt iv cb timeout terminate s = (r, s')"
  shows "r = Some (Inl (CoprException ''Timeouted''))
       \<longleftrightarrow> timeout \<noteq> 0
           \<and> (\<exists>k s0 s1 s2. k < n
                  \<and> wait_loop k env wt iv cb timeout terminate s = (None, s0)
                  \<and> poll_watched env wt (set_iter env (watched s0)) s0 = (None, s1)
                  \<and> run_callback cb s1 = (None, s2) \<and> watched s2 \<noteq> []
                  \<and> terminate \<le> time_time env (world s2))"
    (is "?L \<longleftrightarrow> ?R")
proof
  assume ?L
  with assms have "wait_loop n env wt iv cb timeout terminate s
      = (Some (Inl (CoprException ''Timeouted'')), s')" by simp
  from wait_loop_last_round[OF this] obtain k s0 where k: "k < n"
    and run: "wait_loop k env wt iv cb timeout terminate s = (None, s0)"
    and last: "wait_round env wt iv cb timeout terminate s0
        = (Raise (CoprException ''Timeouted''), s')"
    by auto
  from wait_round_timeouted[OF last] k run show ?R by blast
next
  assume ?R
  then obtain k s0 s1 s2 where nz: "timeout \<noteq> 0" and k: "k < n"
    and run: "wait_loop k env wt iv cb timeout terminate s = (None, s0)"
    and rest: "poll_watched env wt (set_iter env (watched s0)) s0 = (None, s1)"
      "run_callback cb s1 = (None, s2)" "watched s2 \<noteq> []"
      "terminate \<le> time_time env (world s2)"
    by blast
  obtain out s3 where wr: "wait_round env wt iv cb timeout terminate s0 = (out, s3)"
    by (cases "wait_round env wt iv cb timeout terminate s0")
  from wait_round_timeouted[OF wr] nz rest have "out = Raise (CoprException ''Timeouted'')"
    by blast
  with wr have "wait_round env wt iv cb timeout terminate s0
      = (ended_as (Inl (CoprException ''Timeouted'')), s3)" by simp
  from wait_loop_ends[OF k run this] assms show ?L by simp
qed

lemma wait_loop_returns_when_done:
  assumes "wait_loop n env wt iv cb timeout terminate s = (r, s')"
    and "k < n" "wait_loop k env wt iv cb timeout terminate s = (None, s0)"
    and "poll_watched env wt (set_iter env (watched s0)) s0 = (None, s1)"
    and "run_callback cb s1 = (None, s2)" "watched s2 = []"
  shows "r = Some (Inr (dict_values (munches s2))) \<and> s' = s2"
proof -
  from wait_round_returns_when_done[OF assms(4,5,6)]
  have "wait_round env wt iv cb timeout terminate s0
      = (ended_as (Inr (dict_values (munches s2))), s2)" by simp
  from wait_loop_ends[OF assms(2,3) this] assms(1) show ?thesis by simp
qed

text \<open>
  Claim C3: \<open>wait\<close> raises its exception \<open>Timeouted\<close> exactly when the timeout is nonzero and
  one of the rounds it runs gets through its fetches and its callback, leaves a build watched,
  and the clock then shows that the time elapsed since the start has reached the timeout.
  The run then ends with that reading of the clock, which follows the round's callback, and
  with a build still watched. With a timeout of zero \<open>wait\<close> never raises it, and a round that
  leaves nothing watched returns the snapshots whatever the timeout and the clock are.
\<close>

theorem timeout_iff_deadline_reached:
  assumes "wait n env waitable interval callback timeout w = (r, s)"
  shows "(r = Some (Inl (CoprException ''Timeouted''))
            \<longleftrightarrow> timeout \<noteq> 0
                \<and> (\<exists>k s0 s1 s2. k < n
                      \<and> wait k env waitable interval callback timeout w = (None, s0)
                      \<and> poll_watched env waitable (set_iter env (watched s0)) s0 = (None, s1)
                      \<and> run_callback callback s1 = (None, s2)
                      \<and> watched s2 \<noteq> []
                      \<and> timeout \<le> time_time env (world s2) - time_time env w))
       \<and> (r = Some (Inl (CoprException ''Timeouted''))
            \<longrightarrow> watched s \<noteq> []
                \<and> (\<exists>pre t. trace s = pre @ [Clock t] \<and> pre \<noteq> []
                      \<and> timeout \<le> t - time_time env w)
                \<and> (callback \<noteq> None \<longrightarrow> (\<exists>pre ms t. trace s = pre @ [Callback ms, Clock t])))
       \<and> (timeout = 0 \<longrightarrow> r \<noteq> Some (Inl (CoprException ''Timeouted'')))
       \<and> (\<forall>k s0 s1 s2. k < n
             \<and> wait k env waitable interval callback timeout w = (None, s0)
             \<and> poll_watched env waitable (set_iter env (watched s0)) s0 = (None, s1)
             \<and> run_callback callback s1 = (None, s2) \<and> watched s2 = []
             \<longrightarrow> r = Some (Inr (dict_values (munches s2))) \<and> s = s2)"
proof -
  let ?T = "Some (Inl (CoprException ''Timeouted''))"
  have le: "timeout \<le> t - time_time env w \<longleftrightarrow> time_time env w + timeout \<le> t" for t
    by auto
  have 1: "r = ?T
            \<longleftrightarrow> timeout \<noteq> 0
                \<and> (\<exists>k s0 s1 s2. k < n
                      \<and> wait k env waitable interval callback timeout w = (None, s0)
                      \<and> poll_watched env waitable (set_iter env (watched s0)) s0 = (None, s1)
                      \<and> run_callback callback s1 = (None, s2)
                      \<and> watched s2 \<noteq> []
                      \<and> timeout \<le> time_time env (world s2) - time_time env w)"
    unfolding le wait_def by (rule wait_loop_timeouted[OF assms[unfolded wait_def]])
  note facts = wait_timeout_checked[OF assms]
  have 2: "r = ?T \<longrightarrow> watched s \<noteq> []
                \<and> (\<exists>pre t. trace s = pre @ [Clock t] \<and> pre \<noteq> []
                      \<and> timeout \<le> t - time_time env w)
                \<and> (callback \<noteq> None \<longrightarrow> (\<exists>pre ms t. trace s = pre @ [Callback ms, Clock t]))"
  proof
    assume "r = ?T"
    with facts have "timeout_checked callback timeout (time_time env w + timeout)
        (Raise (CoprException ''Timeouted'')) s" by simp
    then have w: "watched s \<noteq> []"
      and d: "deadline_hit (time_time env w + timeout) (trace s)"
      and c: "callback \<noteq> None \<longrightarrow> (\<exists>pre ms t. trace s = pre @ [Callback ms, Clock t])"
      by (simp_all add: timeout_checked_def)
    from d have "\<exists>pre t. trace s = pre @ [Clock t] \<and> pre \<noteq> []
        \<and> timeout \<le> t - time_time env w"
      unfolding le deadline_hit_def .
    with w c show "watched s \<noteq> []
                \<and> (\<exists>pre t. trace s = pre @ [Clock t] \<and> pre \<noteq> []
                      \<and> timeout \<le> t - time_time env w)
                \<and> (callback \<noteq> None \<longrightarrow> (\<exists>pre ms t. trace s = pre @ [Callback ms, Clock t]))"
      by (intro conjI)
  qed
  from 1 have 3: "timeout = 0 \<longrightarrow> r \<noteq> ?T" by simp
  have 4: "\<forall>k s0 s1 s2. k < n
             \<and> wait k env waitable interval callback timeout w = (None, s0)
             \<and> poll_watched env waitable (set_iter env (watched s0)) s0 = (None, s1)
             \<and> run_callback callback s1 = (None, s2) \<and> watched s2 = []
             \<longrightarrow> r = Some (Inr (dict_values (munches s2))) \<and> s = s2"
    unfolding wait_def
    using wait_loop_returns_when_done[OF assms[unfolded wait_def]] by blast
  from 1 2 3 4 show ?thesis by (intro conjI)
qed


theorem timeout_iff_deadline_reached_witness:
  "fst (wait (Suc (Suc 0)) (scripted (\<lambda>p b k. ''running'') (\<lambda>xs. xs))
          (Single \<lparr>id' = 7, state = ''pending'', proxy = Client 0\<rparr>) 1
          (Some (\<lambda>ms w. (None, w))) 2 start) = None
   \<and> fst (poll_watched (scripted (\<lambda>p b k. ''running'') (\<lambda>xs. xs))
          (Single \<lparr>id' = 7, state = ''pending'', proxy = Client 0\<rparr>) [7]
          (snd (wait (Suc (Suc 0)) (scripted (\<lambda>p b k. ''running'') (\<lambda>xs. xs))
             (Single \<lparr>id' = 7, state = ''pending'', proxy = Client 0\<rparr>) 1
             (Some (\<lambda>ms w. (None, w))) 2 start))) = None
   \<and> watched (snd (poll_watched (scripted (\<lambda>p b k. ''running'') (\<lambda>xs. xs))
          (Single \<lparr>id' = 7, state = ''pending'', proxy = Client 0\<rparr>) [7]
          (snd (wait (Suc (Suc 0)) (scripted (\<lambda>p b k. ''running'') (\<lambda>xs. xs))
             (Single \<lparr>id' = 7, state = ''pending'', proxy = Client 0\<rparr>) 1
             (Some (\<lambda>ms w. (None, w))) 2 start)))) = [7]
   \<and> clock (world (snd (poll_watched (scripted (\<lambda>p b k. ''running'') (\<lambda>xs. xs))
          (Single \<lparr>id' = 7, state = ''pending'', proxy = Client 0\<rparr>) [7]
          (snd (wait (Suc (Suc 0)) (scripted (\<lambda>p b k. ''running'') (\<lambda>xs. xs))
             (Single \<lparr>id' = 7, state = ''pending'', proxy = Client 0\<rparr>) 1
             (Some (\<lambda>ms w. (None, w))) 2 start))))) = 2
   \<and> fst (wait (Suc (Suc (Suc 0))) (scripted (\<lambda>p b k. ''running'') (\<lambda>xs. xs))
          (Single \<lparr>id' = 7, state = ''pending'', proxy = Client 0\<rparr>) 1
          (Some (\<lambda>ms w. (None, w))) 2 start)
       = Some (Inl (CoprException ''Timeouted''))
   \<and> watched (snd (wait (Suc (Suc (Suc 0))) (scripted (\<lambda>p b k. ''running'') (\<lambda>xs. xs))
          (Single \<lparr>id' = 7, state = ''pending'', proxy = Client 0\<rparr>) 1
          (Some (\<lambda>ms w. (None, w))) 2 start)) \<noteq> []
   \<and> (\<exists>pre ms t. trace (snd (wait (Suc (Suc (Suc 0))) (scripted (\<lambda>p b k. ''running'') (\<lambda>xs. xs))
          (Single \<lparr>id' = 7, state = ''pending'', proxy = Client 0\<rparr>) 1
          (Some (\<lambda>ms w. (None, w))) 2 start)) = pre @ [Callback ms, Clock t])
   \<and> wait (Suc (Suc 0)) (scripted (\<lambda>p b k. if k = 0 then ''running'' else ''succeeded'') (\<lambda>xs. xs))
          (Single \<lparr>id' = 7, state = ''pending'', proxy = Client 0\<rparr>) 5 None 2 start
       = (Some (Inr [\<lparr>id' = 7, state = ''succeeded'', proxy = Client 0\<rparr>]),
          snd (poll_watched (scripted (\<lambda>p b k. if k = 0 then ''running'' else ''succeeded'') (\<lambda>xs. xs))
             (Single \<lparr>id' = 7, state = ''pending'', proxy = Client 0\<rparr>) [7]
             (snd (wait (Suc 0) (scripted (\<lambda>p b k. if k = 0 then ''running'' else ''succeeded'') (\<lambda>xs. xs))
                (Single \<lparr>id' = 7, state = ''pending'', proxy = Client 0\<rparr>) 5 None 2 start))))
   \<and> clock (world (snd (wait (Suc 0) (scripted (\<lambda>p b k. if k = 0 then ''running'' else ''succeeded'') (\<lambda>xs. xs))
          (Single \<lparr>id' = 7, state = ''pending'', proxy = Client 0\<rparr>) 5 None 2 start))) = 5"
proof -
  let ?env = "scripted (\<lambda>p b k. ''running'') (\<lambda>xs. xs)"
  let ?wt = "Single \<lparr>id' = 7, state = ''pending'', proxy = Client 0\<rparr>"
  let ?cb = "Some (\<lambda>(ms :: munch list) (w :: sworld). (None :: string option, w))"
  let ?s0 = "snd (wait (Suc (Suc 0)) ?env ?wt 1 ?cb 2 start)"
  let ?s1 = "snd (poll_watched ?env ?wt [7] ?s0)"
  let ?s2 = "snd (run_callback ?cb ?s1)"
  let ?run = "wait (Suc (Suc (Suc 0))) ?env ?wt 1 ?cb 2 start"
  note ev = wait_def init_def dict_def wait_round_def poll_build_def run_callback_def
    run_sleep_def scripted_def start_def terminal_states_def dict_values_def Let_def
  have a0: "fst (wait (Suc (Suc 0)) ?env ?wt 1 ?cb 2 start) = None" by (simp add: ev)
  have w0: "watched ?s0 = [7]" by (simp add: ev)
  have a1: "fst (poll_watched ?env ?wt [7] ?s0) = None" by (simp add: ev)
  have w1: "watched ?s1 = [7]" by (simp add: ev)
  have c1: "clock (world ?s1) = 2" by (simp add: ev)
  have a2: "fst (run_callback ?cb ?s1) = None" by (simp add: run_callback_def)
  have w2: "watched ?s2 = watched ?s1" "world ?s2 = world ?s1" by (simp_all add: run_callback_def)
  have it: "set_iter ?env (watched ?s0) = [7]" unfolding w0 by (simp add: scripted_def)
  have tt: "time_time ?env = clock" by (simp add: scripted_def)
  have h0: "wait (Suc (Suc 0)) ?env ?wt 1 ?cb 2 start = (None, ?s0)"
    using a0 by (simp add: prod_eq_iff)
  have h1: "poll_watched ?env ?wt (set_iter ?env (watched ?s0)) ?s0 = (None, ?s1)"
    unfolding it using a1 by (simp add: prod_eq_iff)
  have h2: "run_callback ?cb ?s1 = (None, ?s2)" using a2 by (simp add: prod_eq_iff)
  have h3: "watched ?s2 \<noteq> []" unfolding w2 w1 by simp
  have h4: "(2 :: int) \<le> time_time ?env (world ?s2) - time_time ?env start"
    unfolding tt w2 c1 by (simp add: start_def)
  have run: "?run = (fst ?run, snd ?run)" by simp
  note inst = timeout_iff_deadline_reached[OF run]
  have "(2 :: int) \<noteq> 0 \<and> (\<exists>k s0 s1 s2. k < Suc (Suc (Suc 0))
      \<and> wait k ?env ?wt 1 ?cb 2 start = (None, s0)
      \<and> poll_watched ?env ?wt (set_iter ?env (watched s0)) s0 = (None, s1)
      \<and> run_callback ?cb s1 = (None, s2) \<and> watched s2 \<noteq> []
      \<and> 2 \<le> time_time ?env (world s2) - time_time ?env start)"
    using h0 h1 h2 h3 h4 by (intro conjI exI[of _ "Suc (Suc 0)"] exI[of _ ?s0] exI[of _ ?s1]
        exI[of _ ?s2]) simp_all
  with inst have r: "fst ?run = Some (Inl (CoprException ''Timeouted''))" by blast
  with inst have e: "watched (snd ?run) \<noteq> []"
    "\<exists>pre ms t. trace (snd ?run) = pre @ [Callback ms, Clock t]"
    by simp_all
  let ?env' = "scripted (\<lambda>p b k. if k = 0 then ''running'' else ''succeeded'') (\<lambda>xs. xs)"
  let ?u0 = "snd (wait (Suc 0) ?env' ?wt 5 None 2 start)"
  let ?u1 = "snd (poll_watched ?env' ?wt [7] ?u0)"
  let ?run' = "wait (Suc (Suc 0)) ?env' ?wt 5 None 2 start"
  have b0: "fst (wait (Suc 0) ?env' ?wt 5 None 2 start) = None" by (simp add: ev)
  have v0: "watched ?u0 = [7]" by (simp add: ev)
  have d0: "clock (world ?u0) = 5" by (simp add: ev)
  have b1: "fst (poll_watched ?env' ?wt [7] ?u0) = None" by (simp add: ev)
  have v1: "watched ?u1 = []" by (simp add: ev)
  have m1: "dict_values (munches ?u1) = [\<lparr>id' = 7, state = ''succeeded'', proxy = Client 0\<rparr>]"
    by (simp add: ev)
  have it': "set_iter ?env' (watched ?u0) = [7]" unfolding v0 by (simp add: scripted_def)
  have g0: "wait (Suc 0) ?env' ?wt 5 None 2 start = (None, ?u0)"
    using b0 by (simp add: prod_eq_iff)
  have g1: "poll_watched ?env' ?wt (set_iter ?env' (watched ?u0)) ?u0 = (None, ?u1)"
    unfolding it' using b1 by (simp add: prod_eq_iff)
  have g2: "run_callback None ?u1 = (None, ?u1)" by (simp add: run_callback_def)
  have run': "?run' = (fst ?run', snd ?run')" by simp
  from timeout_iff_deadline_reached[OF run'] g0 g1 g2 v1
  have "fst ?run' = Some (Inr (dict_values (munches ?u1))) \<and> snd ?run' = ?u1"
    by blast
  with m1 have r': "?run' = (Some (Inr [\<lparr>id' = 7, state = ''succeeded'', proxy = Client 0\<rparr>]), ?u1)"
    by (simp add: prod_eq_iff)
  from a0 a1 w1 c1 r e r' d0 show ?thesis by (intro conjI)
qed

section \<open>The class of the two failures\<close>

text \<open>
  Claim C8, as amended: the two failures of \<open>wait\<close> are raised as the same class
  \<open>CoprException\<close> and differ in their message only: \<open>Unknown status.\<close> when a fetch answered
  \<open>unknown\<close>, \<open>Timeouted\<close> when a nonzero timeout is exhausted; \<open>wait\<close> itself raises no
  \<open>CoprException\<close> with another message.
\<close>

theorem failures_share_class:
  assumes "wait n env waitable interval callback timeout w = (Some (Inl e), s)"
  shows "((\<exists>ev\<in>set (trace s). unknown_fetch ev)
            \<longrightarrow> e = CoprException ''Unknown status.'' \<and> exn_class e = ''CoprException'')
       \<and> (timeout \<noteq> 0 \<and> deadline_hit (time_time env w + timeout) (trace s)
            \<longrightarrow> e = CoprException ''Timeouted'' \<and> exn_class e = ''CoprException'')
       \<and> (\<forall>msg. e = CoprException msg \<longrightarrow> msg = ''Unknown status.'' \<or> msg = ''Timeouted'')"
proof -
  from wait_unknown_last[OF assms] have u: "unknown_last (Raise e) (trace s)" by simp
  from wait_timeout_checked[OF assms]
  have t: "timeout_checked callback timeout (time_time env w + timeout) (Raise e) s" by simp
  from u have "(\<exists>ev\<in>set (trace s). unknown_fetch ev) \<longrightarrow> e = CoprException ''Unknown status.''"
    by (auto simp: unknown_last_def)
  moreover from t have "timeout \<noteq> 0 \<and> deadline_hit (time_time env w + timeout) (trace s)
      \<longrightarrow> e = CoprException ''Timeouted''"
    by (simp add: timeout_checked_def)
  moreover from t have "\<forall>msg. e = CoprException msg \<longrightarrow> msg = ''Unknown status.'' \<or> msg = ''Timeouted''"
    by (simp add: timeout_checked_def)
  ultimately show ?thesis by auto
qed

theorem failures_share_class_witness:
  "(\<exists>ev\<in>set (trace (snd (wait (Suc 0) (scripted (\<lambda>p b k. ''unknown'') (\<lambda>xs. xs))
          (Single \<lparr>id' = 7, state = ''pending'', proxy = Client 0\<rparr>) 1 None 2 start))).
        unknown_fetch ev)
   \<and> fst (wait (Suc 0) (scripted (\<lambda>p b k. ''unknown'') (\<lambda>xs. xs))
          (Single \<lparr>id' = 7, state = ''pending'', proxy = Client 0\<rparr>) 1 None 2 start)
       = Some (Inl (CoprException ''Unknown status.''))
   \<and> exn_class (CoprException ''Unknown status.'') = ''CoprException''"
proof -
  let ?run = "wait (Suc 0) (scripted (\<lambda>p b k. ''unknown'') (\<lambda>xs. xs))
          (Single \<lparr>id' = 7, state = ''pending'', proxy = Client 0\<rparr>) 1 None 2 start"
  have r: "fst ?run = Some (Inl (CoprException ''Unknown status.''))"
    and tr: "trace (snd ?run)
      = [Clock 0, Get 0 7 (Inr \<lparr>id' = 7, state = ''unknown'', proxy = Client 0\<rparr>)]"
    by (simp_all add: wait_def init_def dict_def wait_round_def poll_build_def run_callback_def
        run_sleep_def scripted_def start_def terminal_states_def dict_values_def Let_def)
  have ex: "\<exists>ev\<in>set (trace (snd ?run)). unknown_fetch ev" by (simp add: tr)
  have run: "?run = (Some (Inl (CoprException ''Unknown status.'')), snd ?run)"
    using r by (metis prod.collapse)
  from failures_share_class[OF run] ex r show ?thesis by simp
qed

text \<open>
  Claim C8 as stated fails: the exception raised for an \<open>unknown\<close> state and the one raised
  for an exhausted timeout have the same class, so an \<open>except\<close> clause cannot tell them apart.
\<close>

theorem failures_share_class_counterexample:
  "fst (wait (Suc 0) (scripted (\<lambda>p b k. ''unknown'') (\<lambda>xs. xs))
          (Single \<lparr>id' = 7, state = ''pending'', proxy = Client 0\<rparr>) 1 None 2 start)
     = Some (Inl (CoprException ''Unknown status.''))
   \<and> fst (wait (Suc (Suc (Suc 0))) (scripted (\<lambda>p b k. ''running'') (\<lambda>xs. xs))
          (Single \<lparr>id' = 7, state = ''pending'', proxy = Client 0\<rparr>) 1 None 2 start)
     = Some (Inl (CoprException ''Timeouted''))
   \<and> exn_class (CoprException ''Unknown status.'') = exn_class (CoprException ''Timeouted'')"
  by (simp add: wait_def init_def dict_def wait_round_def poll_build_def run_callback_def
      run_sleep_def scripted_def start_def terminal_states_def dict_values_def Let_def)

section \<open>The empty list\<close>

text \<open>
  Claim C10: given the empty list, \<open>wait\<close> returns the empty list in its first round for every
  interval and timeout; apart from reading the clock once at the start it calls nothing but
  the callback, if there is one, once and with the empty list. (The callback is taken not to
  raise there, and iterating over the empty set to yield nothing.)
\<close>

theorem wait_empty_list:
  assumes "iterates_sets env"
    and "\<forall>cb. callback = Some cb \<longrightarrow> fst (cb [] w) = None"
  shows "fst (wait (Suc n) env (Many [] a) interval callback timeout w) = Some (Inr [])
       \<and> trace (snd (wait (Suc n) env (Many [] a) interval callback timeout w))
           = Clock (time_time env w) # (case callback of None \<Rightarrow> [] | Some cb \<Rightarrow> [Callback []])"
proof -
  from assms(1) have it: "set_iter env [] = []"
    unfolding iterates_sets_def by (metis distinct.simps(1) set_empty)
  show ?thesis
  proof (cases callback)
    case None
    with it show ?thesis
      by (simp add: wait_def init_def dict_def wait_round_def run_callback_def dict_values_def)
  next
    case (Some cb)
    obtain x w' where c: "cb [] w = (x, w')" by (cases "cb [] w")
    with assms(2) Some have "x = None" by simp
    with Some it c show ?thesis
      by (simp add: wait_def init_def dict_def wait_round_def run_callback_def dict_values_def)
  qed
qed

theorem wait_empty_list_witness:
  "iterates_sets (scripted (\<lambda>p b k. ''running'') (\<lambda>xs. xs))
   \<and> fst ((\<lambda>ms w. (None, w)) ([] :: munch list) start) = (None :: string option)
   \<and> fst (wait (Suc 0) (scripted (\<lambda>p b k. ''running'') (\<lambda>xs. xs)) (Many [] NoAttr) 30
            (Some (\<lambda>ms w. (None, w))) 5 start) = Some (Inr [])
   \<and> trace (snd (wait (Suc 0) (scripted (\<lambda>p b k. ''running'') (\<lambda>xs. xs)) (Many [] NoAttr) 30
            (Some (\<lambda>ms w. (None, w))) 5 start)) = [Clock 0, Callback []]"
proof -
  have h1: "iterates_sets (scripted (\<lambda>p b k. ''running'') (\<lambda>xs. xs))"
    by (simp add: iterates_sets_def scripted_def)
  have h2: "\<forall>cb. Some (\<lambda>ms w. (None :: string option, w :: sworld)) = Some cb
      \<longrightarrow> fst (cb ([] :: munch list) start) = None"
    by simp
  from wait_empty_list[OF h1 h2, of 0 NoAttr 30 5] h1 show ?thesis
    by (simp add: scripted_def start_def)
qed

section \<open>The proxy of every fetch\<close>

lemma map_of_dict_set: "map_of (dict_set d k v) = (map_of d)(k \<mapsto> v)"
  by (induction d k v rule: dict_set.induct) auto

lemma foldl_learn_other:
  assumes "\<forall>e\<in>set xs. \<not> is_get e"
  shows "foldl learn cur xs = cur"
  using assms
proof (induction xs arbitrary: cur)
  case Nil
  then show ?case by simp
next
  case (Cons e xs)
  then show ?case by (cases e) simp_all
qed

lemma fetch_paths_append:
  "fetch_paths wt cur (xs @ ys)
     \<longleftrightarrow> fetch_paths wt cur xs \<and> fetch_paths wt (foldl learn cur xs) ys"
proof (induction xs arbitrary: cur)
  case Nil
  show ?case by simp
next
  case (Cons e xs)
  show ?case by (cases e) (simp_all add: Cons.IH)
qed

lemma paths_inv_snoc:
  assumes "paths_inv wt cur s" "\<not> is_get e" "munches s' = munches s" "trace s' = trace s @ [e]"
  shows "paths_inv wt cur s'"
  using assms by (cases e) (simp_all add: paths_inv_def fetch_paths_append)

lemma poll_build_paths:
  assumes "poll_build env wt b s = (r, s')" "paths_inv wt cur s"
  shows "paths_inv wt cur s'"
proof -
  from assms(2) have fp: "fetch_paths wt cur (trace s)"
    and l: "foldl learn cur (trace s) = map_of (munches s)"
    by (simp_all add: paths_inv_def)
  have step: "fetch_paths wt cur (trace s @ [Get p b x])"
    if "map_of (munches s) b = Some m"
      "(if proxy m \<noteq> NoAttr then proxy m else waitable_proxy wt) = Client p" for m p x
  proof -
    from that(2) have "if proxy m \<noteq> NoAttr then proxy m = Client p
        else waitable_proxy wt = Client p"
      by (cases "proxy m = NoAttr") simp_all
    with that(1) fp l show ?thesis by (simp add: fetch_paths_append)
  qed
  from assms(1) show ?thesis
  proof (cases rule: poll_build_cases)
    case nokey
    with assms(2) show ?thesis by simp
  next
    case (noproxy m)
    with assms(2) show ?thesis by simp
  next
    case (fetch_err m p err w')
    from step[OF fetch_err(1,2), of "Inl err"] l fetch_err(5) show ?thesis
      by (simp add: paths_inv_def)
  next
    case (fetched m p build w')
    from step[OF fetched(1,2), of "Inr build"] l fetched(5,6) show ?thesis
      by (simp add: paths_inv_def map_of_dict_set)
  qed
qed

lemma poll_watched_paths:
  assumes "poll_watched env wt ids s = (r, s')" "paths_inv wt cur s"
  shows "paths_inv wt cur s'"
proof -
  have "(r = None \<longrightarrow> paths_inv wt cur s') \<and> (\<forall>e. r = Some e \<longrightarrow> paths_inv wt cur s')"
    using assms
    by (rule poll_watched_induct_rule[where I="paths_inv wt cur" and Q="\<lambda>e. paths_inv wt cur"])
      (use poll_build_paths in blast)
  then show ?thesis by (cases r) auto
qed

lemma run_callback_paths:
  assumes "run_callback cb s = (r, s')" "paths_inv wt cur s"
  shows "paths_inv wt cur s'"
  using assms(1)
proof (cases rule: run_callback_cases)
  case nocb
  with assms(2) show ?thesis by simp
next
  case (called c x w')
  show ?thesis
    by (rule paths_inv_snoc[of wt cur s "Callback (dict_values (munches s))"])
      (use assms(2) called in simp_all)
qed

lemma run_sleep_paths:
  assumes "run_sleep env iv s = (r, s')" "paths_inv wt cur s"
  shows "paths_inv wt cur s'"
  using assms(1)
proof (cases rule: run_sleep_cases)
  case (1 x w')
  show ?thesis
    by (rule paths_inv_snoc[of wt cur s "Sleep iv"]) (use assms(2) 1 in simp_all)
qed

lemma wait_round_paths:
  assumes "wait_round env wt iv cb timeout terminate s = (out, s')" "paths_inv wt cur s"
  shows "paths_inv wt cur s'"
  using assms(1)
proof (cases rule: wait_round_cases)
  case (poll_raised e)
  then show ?thesis using assms(2) poll_watched_paths by blast
next
  case (callback_raised s1 e)
  then show ?thesis using assms(2) poll_watched_paths run_callback_paths by blast
next
  case (returned s1)
  then show ?thesis using assms(2) poll_watched_paths run_callback_paths by blast
next
  case (timed_out s1 s2)
  then have p2: "paths_inv wt cur s2"
    using assms(2) poll_watched_paths run_callback_paths by blast
  show ?thesis
    by (rule paths_inv_snoc[of wt cur s2 "Clock (time_time env (world s2))"])
      (use p2 timed_out in simp_all)
next
  case (slept_checked s1 s2)
  then have p2: "paths_inv wt cur s2"
    using assms(2) poll_watched_paths run_callback_paths by blast
  have "paths_inv wt cur (s2\<lparr>trace := trace s2 @ [Clock (time_time env (world s2))]\<rparr>)"
    by (rule paths_inv_snoc[of wt cur s2 "Clock (time_time env (world s2))"])
      (use p2 in simp_all)
  with slept_checked(6) show ?thesis by (rule run_sleep_paths)
next
  case (slept s1 s2)
  then have "paths_inv wt cur s2"
    using assms(2) poll_watched_paths run_callback_paths by blast
  with slept(5) show ?thesis by (rule run_sleep_paths)
qed

text \<open>
  Claim C7: in every round each fetch goes through the proxy bound to the latest snapshot of
  its build (at first the build as passed in, later the answer of the previous fetch) when
  that snapshot has a \<open>__proxy__\<close>, and through the proxy of the waitable argument only when
  the snapshot has none.
\<close>

theorem fetch_through_own_proxy:
  "fetch_paths waitable (map_of (munches (init env waitable w)))
     (trace (snd (wait n env waitable interval callback timeout w)))"
proof -
  obtain r s where run: "wait n env waitable interval callback timeout w = (r, s)"
    by (cases "wait n env waitable interval callback timeout w")
  let ?cur = "map_of (munches (init env waitable w))"
  have "trace (init env waitable w) = [Clock (time_time env w)]"
    by (simp add: init_def Let_def)
  then have i: "paths_inv waitable ?cur (init env waitable w)"
    by (simp add: paths_inv_def)
  have "(r = None \<longrightarrow> paths_inv waitable ?cur s)
      \<and> (\<forall>ms. r = Some (Inr ms) \<longrightarrow> paths_inv waitable ?cur s)
      \<and> (\<forall>e. r = Some (Inl e) \<longrightarrow> paths_inv waitable ?cur s)"
    using run[unfolded wait_def] i
    by (rule wait_loop_induct_rule[where I="paths_inv waitable ?cur"
          and Q="\<lambda>out. paths_inv waitable ?cur"]) (use wait_round_paths in blast)
  then have "paths_inv waitable ?cur s" by (cases r) (auto, metis sum.exhaust)
  with run show ?thesis by (simp add: paths_inv_def)
qed

theorem fetch_through_own_proxy_witness:
  "fetch_paths (Many [\<lparr>id' = 1, state = ''pending'', proxy = NoAttr\<rparr>] (Client 3))
     (map_of (munches (init (scripted (\<lambda>p b k. if k = 0 then ''running'' else ''succeeded'') (\<lambda>xs. xs))
        (Many [\<lparr>id' = 1, state = ''pending'', proxy = NoAttr\<rparr>] (Client 3)) start)))
     (trace (snd (wait (Suc (Suc 0))
        (scripted (\<lambda>p b k. if k = 0 then ''running'' else ''succeeded'') (\<lambda>xs. xs))
        (Many [\<lparr>id' = 1, state = ''pending'', proxy = NoAttr\<rparr>] (Client 3)) 1 None 0 start)))
   \<and> trace (snd (wait (Suc (Suc 0))
        (scripted (\<lambda>p b k. if k = 0 then ''running'' else ''succeeded'') (\<lambda>xs. xs))
        (Many [\<lparr>id' = 1, state = ''pending'', proxy = NoAttr\<rparr>] (Client 3)) 1 None 0 start))
     = [Clock 0, Get 3 1 (Inr \<lparr>id' = 1, state = ''running'', proxy = Client 3\<rparr>), Sleep 1,
        Get 3 1 (Inr \<lparr>id' = 1, state = ''succeeded'', proxy = Client 3\<rparr>)]"
proof -
  have "trace (snd (wait (Suc (Suc 0))
        (scripted (\<lambda>p b k. if k = 0 then ''running'' else ''succeeded'') (\<lambda>xs. xs))
        (Many [\<lparr>id' = 1, state = ''pending'', proxy = NoAttr\<rparr>] (Client 3)) 1 None 0 start))
     = [Clock 0, Get 3 1 (Inr \<lparr>id' = 1, state = ''running'', proxy = Client 3\<rparr>), Sleep 1,
        Get 3 1 (Inr \<lparr>id' = 1, state = ''succeeded'', proxy = Client 3\<rparr>)]"
    by (simp add: wait_def init_def dict_def wait_round_def poll_build_def run_callback_def
        run_sleep_def scripted_def start_def terminal_states_def dict_values_def Let_def)
  with fetch_through_own_proxy[of "Many [\<lparr>id' = 1, state = ''pending'', proxy = NoAttr\<rparr>] (Client 3)"
      "scripted (\<lambda>p b k. if k = 0 then ''running'' else ''succeeded'') (\<lambda>xs. xs)" start
      "Suc (Suc 0)" 1 None 0]
  show ?thesis by simp
qed

section \<open>One build and the list of one build\<close>

lemma poll_build_single_many:
  assumes "fallback_unused j s"
  shows "poll_build env (Single j) b s = poll_build env (Many [j] NoAttr) b s"
proof (cases "map_of (munches s) b")
  case None
  then show ?thesis by (simp add: poll_build_def)
next
  case (Some m)
  with assms have "(if proxy m \<noteq> NoAttr then proxy m else waitable_proxy (Single j))
      = (if proxy m \<noteq> NoAttr then proxy m else waitable_proxy (Many [j] NoAttr))"
    by (auto simp: fallback_unused_def)
  with Some show ?thesis by (simp add: poll_build_def)
qed

lemma poll_build_fallback_unused:
  assumes "poll_build env wt b s = (r, s')" "fallback_unused j s" "binds_proxy env"
  shows "fallback_unused j s'"
  using assms(1)
proof (cases rule: poll_build_cases)
  case (fetch_err m p err w')
  with assms(2) show ?thesis by (simp add: fallback_unused_def)
next
  case (fetched m p build w')
  from assms(3) fetched(3) have "proxy build \<noteq> NoAttr" unfolding binds_proxy_def by blast
  with assms(2) fetched(6) show ?thesis
    by (auto simp: fallback_unused_def map_of_dict_set split: if_splits)
qed (use assms(2) in simp_all)

lemma poll_watched_single_many:
  assumes "fallback_unused j s" "binds_proxy env"
  shows "poll_watched env (Single j) ids s = poll_watched env (Many [j] NoAttr) ids s"
  using assms(1)
proof (induction ids arbitrary: s)
  case Nil
  show ?case by simp
next
  case (Cons b ids)
  obtain r1 s1 where pb: "poll_build env (Single j) b s = (r1, s1)"
    by (cases "poll_build env (Single j) b s")
  with Cons.prems have pb': "poll_build env (Many [j] NoAttr) b s = (r1, s1)"
    by (simp add: poll_build_single_many)
  from pb Cons.prems assms(2) have "fallback_unused j s1" by (rule poll_build_fallback_unused)
  then have "poll_watched env (Single j) ids s1 = poll_watched env (Many [j] NoAttr) ids s1"
    by (rule Cons.IH)
  with pb pb' show ?case by (cases r1) simp_all
qed

lemma poll_watched_fallback_unused:
  assumes "poll_watched env wt ids s = (r, s')" "fallback_unused j s" "binds_proxy env"
  shows "fallback_unused j s'"
proof -
  have "(r = None \<longrightarrow> fallback_unused j s') \<and> (\<forall>e. r = Some e \<longrightarrow> fallback_unused j s')"
    using assms(1,2)
    by (rule poll_watched_induct_rule[where I="fallback_unused j" and Q="\<lambda>e. fallback_unused j"])
      (use poll_build_fallback_unused assms(3) in blast)
  then show ?thesis by (cases r) auto
qed

lemma fallback_unused_munches:
  assumes "fallback_unused j s" "munches s' = munches s"
  shows "fallback_unused j s'"
  using assms by (simp add: fallback_unused_def)

lemma wait_round_single_many:
  assumes "fallback_unused j s" "binds_proxy env"
  shows "wait_round env (Single j) iv cb timeout terminate s
       = wait_round env (Many [j] NoAttr) iv cb timeout terminate s"
  using assms by (simp add: wait_round_def poll_watched_single_many)

lemma wait_round_fallback_unused:
  assumes "wait_round env wt iv cb timeout terminate s = (out, s')" "fallback_unused j s"
    "binds_proxy env"
  shows "fallback_unused j s'"
  using assms(1)
proof (cases rule: wait_round_cases)
  case (poll_raised e)
  then show ?thesis using assms(2,3) poll_watched_fallback_unused by blast
next
  case (callback_raised s1 e)
  then have f1: "fallback_unused j s1" using assms(2,3) poll_watched_fallback_unused by blast
  from callback_raised(2) have "munches s' = munches s1"
    by (cases rule: run_callback_cases) simp_all
  with f1 show ?thesis by (rule fallback_unused_munches)
next
  case (returned s1)
  then have f1: "fallback_unused j s1" using assms(2,3) poll_watched_fallback_unused by blast
  from returned(2) have "munches s' = munches s1"
    by (cases rule: run_callback_cases) simp_all
  with f1 show ?thesis by (rule fallback_unused_munches)
next
  case (timed_out s1 s2)
  then have f1: "fallback_unused j s1" using assms(2,3) poll_watched_fallback_unused by blast
  from timed_out(2) have "munches s2 = munches s1"
    by (cases rule: run_callback_cases) simp_all
  with timed_out(6) have "munches s' = munches s1" by simp
  with f1 show ?thesis by (rule fallback_unused_munches)
next
  case (slept_checked s1 s2)
  then have f1: "fallback_unused j s1" using assms(2,3) poll_watched_fallback_unused by blast
  from slept_checked(2) have "munches s2 = munches s1"
    by (cases rule: run_callback_cases) simp_all
  moreover from slept_checked(6) have "munches s' = munches s2"
    by (cases rule: run_sleep_cases) simp_all
  ultimately have "munches s' = munches s1" by simp
  with f1 show ?thesis by (rule fallback_unused_munches)
next
  case (slept s1 s2)
  then have f1: "fallback_unused j s1" using assms(2,3) poll_watched_fallback_unused by blast
  from slept(2) have "munches s2 = munches s1"
    by (cases rule: run_callback_cases) simp_all
  moreover from slept(5) have "munches s' = munches s2"
    by (cases rule: run_sleep_cases) simp_all
  ultimately have "munches s' = munches s1" by simp
  with f1 show ?thesis by (rule fallback_unused_munches)
qed

lemma wait_loop_single_many:
  assumes "fallback_unused j s" "binds_proxy env"
  shows "wait_loop n env (Single j) iv cb timeout terminate s
       = wait_loop n env (Many [j] NoAttr) iv cb timeout terminate s"
  using assms(1)
proof (induction n arbitrary: s)
  case 0
  show ?case by simp
next
  case (Suc n)
  obtain out s1 where wr: "wait_round env (Single j) iv cb timeout terminate s = (out, s1)"
    by (cases "wait_round env (Single j) iv cb timeout terminate s")
  with Suc.prems assms(2)
  have wr': "wait_round env (Many [j] NoAttr) iv cb timeout terminate s = (out, s1)"
    by (simp add: wait_round_single_many)
  from wr Suc.prems assms(2) have "fallback_unused j s1" by (rule wait_round_fallback_unused)
  then have "wait_loop n env (Single j) iv cb timeout terminate s1
       = wait_loop n env (Many [j] NoAttr) iv cb timeout terminate s1"
    by (rule Suc.IH)
  with wr wr' show ?case by (cases out) simp_all
qed

text \<open>
  Claim C9, as amended: when every answer of a fetch carries its own \<open>__proxy__\<close>, waiting
  for the build \<open>j\<close> and waiting for the list \<open>[j]\<close> are the same run: the same calls in the
  same order, and the same list or the same exception, after any number of rounds.
\<close>

theorem wait_single_as_list:
  assumes "binds_proxy env"
  shows "wait n env (Single j) interval callback timeout w
       = wait n env (Many [j] NoAttr) interval callback timeout w"
proof -
  have i: "init env (Single j) w = init env (Many [j] NoAttr) w"
    by (simp add: init_def)
  have "fallback_unused j (init env (Single j) w)"
    by (auto simp: fallback_unused_def init_def dict_def split: if_splits)
  then show ?thesis
    unfolding wait_def using assms by (simp add: wait_loop_single_many flip: i)
qed

theorem wait_single_as_list_witness:
  "binds_proxy (scripted (\<lambda>p b k. if k = 0 then ''running'' else ''succeeded'') (\<lambda>xs. xs))
   \<and> wait (Suc (Suc 0)) (scripted (\<lambda>p b k. if k = 0 then ''running'' else ''succeeded'') (\<lambda>xs. xs))
        (Single \<lparr>id' = 1, state = ''pending'', proxy = Client 0\<rparr>) 1 None 0 start
     = wait (Suc (Suc 0)) (scripted (\<lambda>p b k. if k = 0 then ''running'' else ''succeeded'') (\<lambda>xs. xs))
        (Many [\<lparr>id' = 1, state = ''pending'', proxy = Client 0\<rparr>] NoAttr) 1 None 0 start
   \<and> fst (wait (Suc (Suc 0)) (scripted (\<lambda>p b k. if k = 0 then ''running'' else ''succeeded'') (\<lambda>xs. xs))
        (Many [\<lparr>id' = 1, state = ''pending'', proxy = Client 0\<rparr>] NoAttr) 1 None 0 start)
     = Some (Inr [\<lparr>id' = 1, state = ''succeeded'', proxy = Client 0\<rparr>])"
proof -
  have h: "binds_proxy (scripted (\<lambda>p b k. if k = 0 then ''running'' else ''succeeded'') (\<lambda>xs. xs))"
    by (auto simp: binds_proxy_def scripted_def)
  have "fst (wait (Suc (Suc 0)) (scripted (\<lambda>p b k. if k = 0 then ''running'' else ''succeeded'') (\<lambda>xs. xs))
        (Many [\<lparr>id' = 1, state = ''pending'', proxy = Client 0\<rparr>] NoAttr) 1 None 0 start)
     = Some (Inr [\<lparr>id' = 1, state = ''succeeded'', proxy = Client 0\<rparr>])"
    by (simp add: wait_def init_def dict_def wait_round_def poll_build_def run_callback_def
        run_sleep_def scripted_def start_def terminal_states_def dict_values_def Let_def)
  with h wait_single_as_list[OF h, of "Suc (Suc 0)" "\<lparr>id' = 1, state = ''pending'', proxy = Client 0\<rparr>"
      1 None 0 start]
  show ?thesis by simp
qed

text \<open>
  Claim C9 as stated fails: when the answers of the fetch carry no \<open>__proxy__\<close>, the second
  round falls back on \<open>waitable.__proxy__\<close>, which the build has and the plain list has not.
\<close>

theorem wait_single_as_list_counterexample:
  "fst (wait (Suc (Suc 0))
        (unbound (scripted (\<lambda>p b k. if k = 0 then ''running'' else ''succeeded'') (\<lambda>xs. xs)))
        (Single \<lparr>id' = 1, state = ''pending'', proxy = Client 0\<rparr>) 1 None 0 start)
     = Some (Inr [\<lparr>id' = 1, state = ''succeeded'', proxy = NoAttr\<rparr>])
   \<and> fst (wait (Suc (Suc 0))
        (unbound (scripted (\<lambda>p b k. if k = 0 then ''running'' else ''succeeded'') (\<lambda>xs. xs)))
        (Many [\<lparr>id' = 1, state = ''pending'', proxy = Client 0\<rparr>] NoAttr) 1 None 0 start)
     = Some (Inl AttributeError)"
  by (simp add: wait_def init_def dict_def wait_round_def poll_build_def run_callback_def
      run_sleep_def scripted_def unbound_def start_def terminal_states_def dict_values_def Let_def)

section \<open>The callback\<close>

lemma dict_set_keys:
  assumes "map_of d k = Some m"
  shows "map fst (dict_set d k v) = map fst d"
  using assms by (induction d k v rule: dict_set.induct) (auto split: if_splits)

lemma set_keys_dict_set: "set (map fst (dict_set d k v)) = insert k (set (map fst d))"
  by (induction d k v rule: dict_set.induct) auto

lemma distinct_keys_dict_set:
  assumes "distinct (map fst d)"
  shows "distinct (map fst (dict_set d k v))"
  using assms
proof (induction d k v rule: dict_set.induct)
  case (1 k v)
  show ?case by simp
next
  case (2 k' v' d k v)
  then show ?case using set_keys_dict_set[of d k v] by auto
qed

lemma keys_foldl_dict_set:
  assumes "distinct (map fst d)"
  shows "distinct (map fst (foldl (\<lambda>d (k, v). dict_set d k v) d kvs))
       \<and> set (map fst (foldl (\<lambda>d (k, v). dict_set d k v) d kvs)) = set (map fst d) \<union> set (map fst kvs)"
  using assms
proof (induction kvs arbitrary: d)
  case Nil
  then show ?case by simp
next
  case (Cons kv kvs)
  obtain k v where kv: "kv = (k, v)" by (cases kv)
  from Cons.prems have "distinct (map fst (dict_set d k v))" by (rule distinct_keys_dict_set)
  from Cons.IH[OF this] kv show ?case using set_keys_dict_set[of d k v] by auto
qed

lemma keys_dict: "distinct (map fst (dict kvs))" "set (map fst (dict kvs)) = set (map fst kvs)"
  using keys_foldl_dict_set[of "[]" kvs] by (simp_all add: dict_def)

lemma length_dict: "length (dict kvs) = length (remdups (map fst kvs))"
proof -
  have "length (dict kvs) = length (map fst (dict kvs))" by simp
  also have "\<dots> = card (set (map fst (dict kvs)))"
    using keys_dict(1)[of kvs] by (simp only: distinct_card)
  also have "\<dots> = card (set (map fst kvs))" by (simp only: keys_dict(2))
  also have "\<dots> = length (remdups (map fst kvs))" by (simp only: length_remdups_card_conv)
  finally show ?thesis .
qed

lemma callbacks_ok_append:
  "callbacks_ok ph d (xs @ ys)
     \<longleftrightarrow> callbacks_ok ph d xs \<and> callbacks_ok (foldl turn ph xs) (foldl store d xs) ys"
  by (induction xs arbitrary: ph d) simp_all

lemma shape_inv_snoc:
  assumes "shape_inv d0 ph s" "trace s' = trace s @ [e]" "allowed ph (munches s) e"
    "munches s' = store (munches s) e" "length (store (munches s) e) = length (munches s)"
    "\<forall>ms. e = Callback ms \<longrightarrow> length ms = length (munches s)"
  shows "shape_inv d0 (turn ph e) s'"
proof -
  from assms(1) have ne: "trace s \<noteq> []" by (simp add: shape_inv_def)
  with assms(2) have tl: "tl (trace s') = tl (trace s) @ [e]" by simp
  from assms(1,3,4,5,6) show ?thesis
    unfolding shape_inv_def tl assms(2) by (auto simp: callbacks_ok_append)
qed

lemma poll_build_shape:
  assumes "poll_build env wt b s = (r, s')" "shape_inv d0 Polling s"
  shows "shape_inv d0 Polling s'"
  using assms(1)
proof (cases rule: poll_build_cases)
  case (fetch_err m p err w')
  have "shape_inv d0 (turn Polling (Get p b (Inl err))) s'"
    by (rule shape_inv_snoc[OF assms(2)]) (use fetch_err in simp_all)
  then show ?thesis by simp
next
  case (fetched m p build w')
  from fetched(1) have "length (dict_set (munches s) b build) = length (munches s)"
    using dict_set_keys[of "munches s" b m build] by (metis length_map)
  then have "shape_inv d0 (turn Polling (Get p b (Inr build))) s'"
    by (intro shape_inv_snoc[OF assms(2)]) (use fetched in simp_all)
  then show ?thesis by simp
qed (use assms(2) in simp_all)

lemma poll_watched_shape:
  assumes "poll_watched env wt ids s = (r, s')" "shape_inv d0 Polling s"
  shows "shape_inv d0 Polling s'"
proof -
  have "(r = None \<longrightarrow> shape_inv d0 Polling s') \<and> (\<forall>e. r = Some e \<longrightarrow> shape_inv d0 Polling s')"
    using assms
    by (rule poll_watched_induct_rule[where I="shape_inv d0 Polling"
          and Q="\<lambda>e. shape_inv d0 Polling"]) (use poll_build_shape in blast)
  then show ?thesis by (cases r) auto
qed

lemma run_callback_shape:
  assumes "run_callback (Some cb) s = (r, s')" "shape_inv d0 Polling s"
  shows "shape_inv d0 Called s'" "\<exists>pre. trace s' = pre @ [Callback (dict_values (munches s'))]"
proof -
  from assms(1) obtain w' where
    s': "s' = s\<lparr>world := w', trace := trace s @ [Callback (dict_values (munches s))]\<rparr>"
    by (cases rule: run_callback_cases) simp_all
  have "shape_inv d0 (turn Polling (Callback (dict_values (munches s)))) s'"
    by (rule shape_inv_snoc[OF assms(2)]) (simp_all add: s' dict_values_def)
  then show "shape_inv d0 Called s'" by simp
  from s' show "\<exists>pre. trace s' = pre @ [Callback (dict_values (munches s'))]" by simp
qed

lemma clock_shape:
  assumes "shape_inv d0 Called s"
  shows "shape_inv d0 Called (s\<lparr>trace := trace s @ [Clock t]\<rparr>)"
proof -
  have "shape_inv d0 (turn Called (Clock t)) (s\<lparr>trace := trace s @ [Clock t]\<rparr>)"
    by (rule shape_inv_snoc[OF assms]) simp_all
  then show ?thesis by simp
qed

lemma run_sleep_shape:
  assumes "run_sleep env iv s = (out, s')" "shape_inv d0 Called s"
  shows "shape_inv d0 Polling s'" "\<And>res. out \<noteq> Return res"
proof -
  from assms(1) obtain x w' where
    s': "s' = s\<lparr>world := w', trace := trace s @ [Sleep iv]\<rparr>"
    and out: "out = (case x of None \<Rightarrow> Continue | Some err \<Rightarrow> Raise (Propagated err))"
    by (cases rule: run_sleep_cases) simp_all
  have "shape_inv d0 (turn Called (Sleep iv)) s'"
    by (rule shape_inv_snoc[OF assms(2)]) (simp_all add: s')
  then show "shape_inv d0 Polling s'" by simp
  from out show "\<And>res. out \<noteq> Return res" by (cases x) simp_all
qed

lemma wait_round_shape:
  assumes "wait_round env wt iv (Some cb) timeout terminate s = (out, s')"
    "shape_inv d0 Polling s"
  shows "(out = Continue \<longrightarrow> shape_inv d0 Polling s') \<and> (out \<noteq> Continue \<longrightarrow> called_last d0 out s')"
  using assms(1)
proof (cases rule: wait_round_cases)
  case (poll_raised e)
  with poll_watched_shape[OF poll_raised(1) assms(2)] show ?thesis
    by (auto simp: called_last_def)
next
  case (callback_raised s1 e)
  from run_callback_shape(1)[OF callback_raised(2) poll_watched_shape[OF callback_raised(1) assms(2)]]
    callback_raised(3)
  show ?thesis by (auto simp: called_last_def)
next
  case (returned s1)
  from run_callback_shape[OF returned(2) poll_watched_shape[OF returned(1) assms(2)]] returned(4)
  show ?thesis by (auto simp: called_last_def)
next
  case (timed_out s1 s2)
  from run_callback_shape(1)[OF timed_out(2) poll_watched_shape[OF timed_out(1) assms(2)]]
  have "shape_inv d0 Called s'" unfolding timed_out(6) by (rule clock_shape)
  with timed_out(7) show ?thesis by (auto simp: called_last_def)
next
  case (slept_checked s1 s2)
  from run_callback_shape(1)[OF slept_checked(2) poll_watched_shape[OF slept_checked(1) assms(2)]]
  have "shape_inv d0 Called (s2\<lparr>trace := trace s2 @ [Clock (time_time env (world s2))]\<rparr>)"
    by (rule clock_shape)
  from run_sleep_shape[OF slept_checked(6) this] show ?thesis
    by (auto simp: called_last_def)
next
  case (slept s1 s2)
  from run_callback_shape(1)[OF slept(2) poll_watched_shape[OF slept(1) assms(2)]]
  have "shape_inv d0 Called s2" .
  from run_sleep_shape[OF slept(5) this] show ?thesis
    by (auto simp: called_last_def)
qed

lemma wait_round_counts:
  assumes "wait_round env wt iv (Some cb) timeout terminate s = (Continue, s')"
  shows "length (filter is_callback (trace s')) = Suc (length (filter is_callback (trace s)))"
proof -
  have gets: "length (filter is_callback (trace s1)) = length (filter is_callback (trace s))"
    if "poll_watched env wt (set_iter env (watched s)) s = (None, s1)" for s1
  proof -
    from poll_watched_trace[OF that] obtain xs where
      xs: "trace s1 = trace s @ xs" "\<forall>e\<in>set xs. is_get e" by blast
    have "filter is_callback xs = []"
    proof (rule filter_False, rule ballI)
      fix e assume "e \<in> set xs"
      with xs(2) have "is_get e" by simp
      then show "\<not> is_callback e" by (cases e) simp_all
    qed
    with xs(1) show ?thesis by simp
  qed
  have cbk: "length (filter is_callback (trace s2)) = Suc (length (filter is_callback (trace s1)))"
    if "run_callback (Some cb) s1 = (None, s2)" for s1 s2
    using that by (cases rule: run_callback_cases) simp_all
  have slp: "length (filter is_callback (trace s3)) = length (filter is_callback (trace s2))"
    if "run_sleep env iv s2 = (Continue, s3)" for s2 s3
    using that by (cases rule: run_sleep_cases) simp_all
  from assms show ?thesis
  proof (cases rule: wait_round_cases)
    case (slept_checked s1 s2)
    from slp[OF slept_checked(6)] cbk[OF slept_checked(2)] gets[OF slept_checked(1)]
    show ?thesis by simp
  next
    case (slept s1 s2)
    from slp[OF slept(5)] cbk[OF slept(2)] gets[OF slept(1)]
    show ?thesis by simp
  qed simp_all
qed

lemma wait_loop_counts:
  assumes "wait_loop n env wt iv (Some cb) timeout terminate s = (None, s')"
  shows "length (filter is_callback (trace s')) = length (filter is_callback (trace s)) + n"
  using assms
proof (induction n arbitrary: s)
  case 0
  then show ?case by simp
next
  case (Suc n)
  obtain out s1 where wr: "wait_round env wt iv (Some cb) timeout terminate s = (out, s1)"
    by (cases "wait_round env wt iv (Some cb) timeout terminate s")
  with Suc.prems have out: "out = Continue"
    and rest: "wait_loop n env wt iv (Some cb) timeout terminate s1 = (None, s')"
    by (cases out; simp)+
  from wait_round_counts[OF wr[unfolded out]] Suc.IH[OF rest] show ?case by simp
qed

text \<open>
  Claim C5: with a callback, every round of the trace consists of its fetches, then exactly
  one call of the callback with the values of the whole dictionary as the fetches of that
  round left it, then the sleep; each such list has as many snapshots as builds were
  tracked at the start; a run still going after \<open>n\<close> rounds has called it \<open>n\<close> times; and a
  run that returns has called it last, with the very list it returns.
\<close>

theorem callback_once_per_round:
  assumes "wait n env waitable interval (Some cb) timeout w = (r, s)"
  shows "callbacks_ok Polling (munches (init env waitable w)) (tl (trace s))
       \<and> (\<forall>ms. Callback ms \<in> set (trace s)
             \<longrightarrow> length ms = length (remdups (map id' (builds_of waitable))))
       \<and> (r = None \<longrightarrow> length (filter is_callback (trace s)) = n)
       \<and> (\<forall>res. r = Some (Inr res) \<longrightarrow> (\<exists>pre. trace s = pre @ [Callback res]))"
proof -
  let ?d0 = "munches (init env waitable w)"
  have len: "length ?d0 = length (remdups (map id' (builds_of waitable)))"
    by (simp add: init_def Let_def length_dict comp_def)
  have i: "shape_inv ?d0 Polling (init env waitable w)"
    by (simp add: shape_inv_def) (simp add: init_def Let_def)
  have facts: "(r = None \<longrightarrow> shape_inv ?d0 Polling s)
      \<and> (\<forall>ms. r = Some (Inr ms) \<longrightarrow> called_last ?d0 (Return ms) s)
      \<and> (\<forall>e. r = Some (Inl e) \<longrightarrow> called_last ?d0 (Raise e) s)"
    using assms[unfolded wait_def] i
    by (rule wait_loop_induct_rule[where I="shape_inv ?d0 Polling" and Q="called_last ?d0"])
      (rule wait_round_shape)
  have sh: "\<exists>ph. shape_inv ?d0 ph s"
  proof (cases r)
    case None
    with facts show ?thesis by auto
  next
    case (Some x)
    with facts show ?thesis by (cases x) (auto simp: called_last_def)
  qed
  then have 1: "callbacks_ok Polling ?d0 (tl (trace s))"
    and 2: "\<forall>ms. Callback ms \<in> set (trace s) \<longrightarrow> length ms = length ?d0"
    by (auto simp: shape_inv_def)
  have 3: "r = None \<longrightarrow> length (filter is_callback (trace s)) = n"
  proof
    assume "r = None"
    with assms have "wait_loop n env waitable interval (Some cb) timeout
        (time_time env w + timeout) (init env waitable w) = (None, s)"
      by (simp add: wait_def)
    from wait_loop_counts[OF this] show "length (filter is_callback (trace s)) = n"
      by (simp add: init_def Let_def)
  qed
  from facts have 4: "\<forall>res. r = Some (Inr res) \<longrightarrow> (\<exists>pre. trace s = pre @ [Callback res])"
    by (simp add: called_last_def)
  from 1 2 3 4 len show ?thesis by simp
qed

theorem callback_once_per_round_witness:
  "fst (wait (Suc (Suc 0))
          (scripted (\<lambda>p b k. if b = 1 then ''succeeded'' else if k = 0 then ''running'' else ''failed'')
             (\<lambda>xs. xs))
          (Many [\<lparr>id' = 1, state = ''pending'', proxy = Client 0\<rparr>,
                 \<lparr>id' = 2, state = ''pending'', proxy = Client 0\<rparr>] NoAttr)
          0 (Some (\<lambda>ms w. (None, w))) 0 start)
     = Some (Inr [\<lparr>id' = 1, state = ''succeeded'', proxy = Client 0\<rparr>,
                  \<lparr>id' = 2, state = ''failed'', proxy = Client 0\<rparr>])
   \<and> (\<exists>pre. trace (snd (wait (Suc (Suc 0))
          (scripted (\<lambda>p b k. if b = 1 then ''succeeded'' else if k = 0 then ''running'' else ''failed'')
             (\<lambda>xs. xs))
          (Many [\<lparr>id' = 1, state = ''pending'', proxy = Client 0\<rparr>,
                 \<lparr>id' = 2, state = ''pending'', proxy = Client 0\<rparr>] NoAttr)
          0 (Some (\<lambda>ms w. (None, w))) 0 start))
        = pre @ [Callback [\<lparr>id' = 1, state = ''succeeded'', proxy = Client 0\<rparr>,
                           \<lparr>id' = 2, state = ''failed'', proxy = Client 0\<rparr>]])
   \<and> fst (wait (Suc 0)
          (scripted (\<lambda>p b k. if b = 1 then ''succeeded'' else if k = 0 then ''running'' else ''failed'')
             (\<lambda>xs. xs))
          (Many [\<lparr>id' = 1, state = ''pending'', proxy = Client 0\<rparr>,
                 \<lparr>id' = 2, state = ''pending'', proxy = Client 0\<rparr>] NoAttr)
          0 (Some (\<lambda>ms w. (None, w))) 0 start) = None
   \<and> length (filter is_callback (trace (snd (wait (Suc 0)
          (scripted (\<lambda>p b k. if b = 1 then ''succeeded'' else if k = 0 then ''running'' else ''failed'')
             (\<lambda>xs. xs))
          (Many [\<lparr>id' = 1, state = ''pending'', proxy = Client 0\<rparr>,
                 \<lparr>id' = 2, state = ''pending'', proxy = Client 0\<rparr>] NoAttr)
          0 (Some (\<lambda>ms w. (None, w))) 0 start)))) = Suc 0"
proof -
  let ?env = "scripted (\<lambda>p b k. if b = 1 then ''succeeded'' else if k = 0 then ''running'' else ''failed'')
             (\<lambda>xs. xs)"
  let ?wt = "Many [\<lparr>id' = 1, state = ''pending'', proxy = Client 0\<rparr>,
                 \<lparr>id' = 2, state = ''pending'', proxy = Client 0\<rparr>] NoAttr"
  let ?cb = "\<lambda>(ms :: munch list) (w :: sworld). (None :: string option, w)"
  have r2: "fst (wait (Suc (Suc 0)) ?env ?wt 0 (Some ?cb) 0 start)
     = Some (Inr [\<lparr>id' = 1, state = ''succeeded'', proxy = Client 0\<rparr>,
                  \<lparr>id' = 2, state = ''failed'', proxy = Client 0\<rparr>])"
    by (simp add: wait_def init_def dict_def wait_round_def poll_build_def run_callback_def
        run_sleep_def scripted_def start_def terminal_states_def dict_values_def Let_def)
  have r1: "fst (wait (Suc 0) ?env ?wt 0 (Some ?cb) 0 start) = None"
    by (simp add: wait_def init_def dict_def wait_round_def poll_build_def run_callback_def
        run_sleep_def scripted_def start_def terminal_states_def dict_values_def Let_def)
  have run2: "wait (Suc (Suc 0)) ?env ?wt 0 (Some ?cb) 0 start
      = (fst (wait (Suc (Suc 0)) ?env ?wt 0 (Some ?cb) 0 start),
         snd (wait (Suc (Suc 0)) ?env ?wt 0 (Some ?cb) 0 start))" by simp
  have run1: "wait (Suc 0) ?env ?wt 0 (Some ?cb) 0 start
      = (fst (wait (Suc 0) ?env ?wt 0 (Some ?cb) 0 start),
         snd (wait (Suc 0) ?env ?wt 0 (Some ?cb) 0 start))" by simp
  from callback_once_per_round[OF run2] callback_once_per_round[OF run1] r1 r2
  show ?thesis by simp
qed

section \<open>One fetch per watched build and round\<close>

lemma snoc_eq_append_Cons:
  "tr @ [e] = xs @ g # ys
     \<longleftrightarrow> (ys = [] \<and> tr = xs \<and> e = g) \<or> (\<exists>ys'. ys = ys' @ [e] \<and> tr = xs @ g # ys')"
proof (cases ys rule: rev_cases)
  case Nil
  then show ?thesis by auto
next
  case (snoc ys' y)
  have "tr @ [e] = (xs @ g # ys') @ [y] \<longleftrightarrow> tr = xs @ g # ys' \<and> e = y"
    by (simp only: append1_eq_conv)
  with snoc show ?thesis by auto
qed

lemma fetches_ok_append:
  "fetches_ok st (xs @ ys) \<longleftrightarrow> fetches_ok st xs \<and> fetches_ok (foldl fturn st xs) ys"
  by (induction xs arbitrary: st) simp_all

lemma never_again_snoc_other:
  assumes "never_again s" "trace s' = trace s @ [e]" "\<not> is_get e"
    "watched s' = watched s" "munches s' = munches s"
  shows "never_again s'"
  unfolding never_again_def
proof (intro allI impI, elim conjE)
  fix xs p b m ys
  assume tr: "trace s' = xs @ Get p b (Inr m) # ys" and tm: "state m \<in> set terminal_states"
  from tr assms(2) have "trace s @ [e] = xs @ Get p b (Inr m) # ys" by simp
  then consider "ys = []" "e = Get p b (Inr m)"
    | ys' where "ys = ys' @ [e]" "trace s = xs @ Get p b (Inr m) # ys'"
    unfolding snoc_eq_append_Cons by blast
  then show "(\<forall>q x. Get q b x \<notin> set ys) \<and> b \<notin> set (watched s')
      \<and> map_of (munches s') b = Some m"
  proof cases
    case 1
    with assms(3) show ?thesis by simp
  next
    case 2
    with assms(1) tm have "(\<forall>q x. Get q b x \<notin> set ys') \<and> b \<notin> set (watched s)
        \<and> map_of (munches s) b = Some m"
      unfolding never_again_def by blast
    moreover from assms(3) have "\<And>q x. e \<noteq> Get q b x" by auto
    ultimately show ?thesis using 2(1) assms(4,5) by auto
  qed
qed

lemma never_again_get:
  assumes "never_again s" "trace s' = trace s @ [Get p b x]" "b \<in> set (watched s)"
    "set (watched s') \<subseteq> set (watched s)"
    "\<forall>b'. b' \<noteq> b \<longrightarrow> map_of (munches s') b' = map_of (munches s) b'"
    "\<forall>m. x = Inr m \<and> state m \<in> set terminal_states
        \<longrightarrow> b \<notin> set (watched s') \<and> map_of (munches s') b = Some m"
  shows "never_again s'"
  unfolding never_again_def
proof (intro allI impI, elim conjE)
  fix xs p' b' m ys
  assume tr: "trace s' = xs @ Get p' b' (Inr m) # ys" and tm: "state m \<in> set terminal_states"
  from tr assms(2) have "trace s @ [Get p b x] = xs @ Get p' b' (Inr m) # ys" by simp
  then consider "ys = []" "Get p b x = Get p' b' (Inr m)"
    | ys' where "ys = ys' @ [Get p b x]" "trace s = xs @ Get p' b' (Inr m) # ys'"
    unfolding snoc_eq_append_Cons by blast
  then show "(\<forall>q x. Get q b' x \<notin> set ys) \<and> b' \<notin> set (watched s')
      \<and> map_of (munches s') b' = Some m"
  proof cases
    case 1
    with assms(6) tm show ?thesis by simp
  next
    case 2
    with assms(1) tm have old: "(\<forall>q x. Get q b' x \<notin> set ys') \<and> b' \<notin> set (watched s)
        \<and> map_of (munches s) b' = Some m"
      unfolding never_again_def by blast
    with assms(3) have ne: "b' \<noteq> b" by auto
    with old 2(1) assms(4,5) show ?thesis by auto
  qed
qed

lemma core_snoc_other:
  assumes "core w0 acc s" "trace s' = trace s @ [e]" "\<not> is_get e"
    "watched s' = watched s" "munches s' = munches s" "fallowed (watched s, acc) e"
  shows "core w0 (snd (fturn (watched s, acc) e)) s'"
proof -
  from assms(1) have c: "distinct (watched s)" "fetches_ok (w0, []) (trace s)"
    "foldl fturn (w0, []) (trace s) = (watched s, acc)" "never_again s"
    by (simp_all add: core_def)
  from assms(3) have ws: "fst (fturn (watched s, acc) e) = watched s" by (cases e) simp_all
  have "never_again s'" using c(4) assms(2,3,4,5) by (rule never_again_snoc_other)
  moreover have "fetches_ok (w0, []) (trace s')"
    using c(2,3) assms(2,6) by (simp add: fetches_ok_append)
  moreover have "foldl fturn (w0, []) (trace s') = (watched s', snd (fturn (watched s, acc) e))"
  proof -
    have "foldl fturn (w0, []) (trace s') = fturn (watched s, acc) e"
      using c(3) assms(2) by simp
    also have "\<dots> = (watched s', snd (fturn (watched s, acc) e))"
      using ws assms(4) by (simp add: prod_eq_iff)
    finally show ?thesis .
  qed
  ultimately show ?thesis using c(1) assms(4) by (simp add: core_def)
qed

lemma poll_build_core:
  assumes pb: "poll_build env wt b s = (r, s')" and c: "core w0 acc s"
    and p: "pending acc (b # ids) s"
  shows "(\<exists>acc'. core w0 acc' s') \<and> (r = None \<longrightarrow> core w0 (b # acc) s' \<and> pending (b # acc) ids s')"
proof -
  from c have c': "distinct (watched s)" "fetches_ok (w0, []) (trace s)"
    "foldl fturn (w0, []) (trace s) = (watched s, acc)" "never_again s"
    by (simp_all add: core_def)
  from p have p': "distinct ids" "b \<notin> set ids" "b \<in> set (watched s)" "set ids \<subseteq> set (watched s)"
    "b \<notin> set acc" "set ids \<inter> set acc = {}" "set (watched s) \<subseteq> insert b (set acc \<union> set ids)"
    by (auto simp: pending_def)
  have got: "core w0 (b # acc) s' \<and> pending (b # acc) ids s'"
    if tr: "trace s' = trace s @ [Get q b x]"
      and ws: "watched s' = (if ended x then removeAll b (watched s) else watched s)"
      and ms: "\<forall>b'. b' \<noteq> b \<longrightarrow> map_of (munches s') b' = map_of (munches s) b'"
      and fin: "\<forall>m. x = Inr m \<longrightarrow> map_of (munches s') b = Some m" for q x
  proof -
    have sub: "set (watched s') \<subseteq> set (watched s)" using ws by auto
    have "\<forall>m. x = Inr m \<and> state m \<in> set terminal_states
        \<longrightarrow> b \<notin> set (watched s') \<and> map_of (munches s') b = Some m"
      using ws fin by auto
    with c'(4) tr p'(3) sub ms have "never_again s'" by (rule never_again_get)
    moreover have "distinct (watched s')" using c'(1) ws by (simp add: distinct_removeAll)
    moreover have "fetches_ok (w0, []) (trace s')"
      using c'(2,3) tr p'(3,5) by (simp add: fetches_ok_append)
    moreover have "foldl fturn (w0, []) (trace s') = (watched s', b # acc)"
      using c'(3) tr ws by simp
    moreover have "pending (b # acc) ids s'"
      using p' ws by (auto simp: pending_def)
    ultimately show ?thesis by (simp add: core_def)
  qed
  from pb show ?thesis
  proof (cases rule: poll_build_cases)
    case nokey
    with c show ?thesis by auto
  next
    case (noproxy m)
    with c show ?thesis by auto
  next
    case (fetch_err m q err w')
    have "core w0 (b # acc) s' \<and> pending (b # acc) ids s'"
      by (rule got[of q "Inl err"]) (use fetch_err in simp_all)
    then show ?thesis by auto
  next
    case (fetched m q build w')
    have "core w0 (b # acc) s' \<and> pending (b # acc) ids s'"
      by (rule got[of q "Inr build"]) (use fetched in \<open>simp_all add: map_of_dict_set\<close>)
    then show ?thesis by auto
  qed
qed

lemma poll_watched_core:
  assumes "poll_watched env wt ids s = (r, s')" "core w0 acc s" "pending acc ids s"
  shows "\<exists>acc'. core w0 acc' s' \<and> (r = None \<longrightarrow> set (watched s') \<subseteq> set acc')"
  using assms
proof (induction ids arbitrary: s acc)
  case Nil
  then show ?case by (auto simp: pending_def)
next
  case (Cons b ids)
  obtain r1 s1 where pb: "poll_build env wt b s = (r1, s1)" by (cases "poll_build env wt b s")
  note step = poll_build_core[OF pb Cons.prems(2,3)]
  show ?case
  proof (cases r1)
    case None
    with pb Cons.prems(1) have "poll_watched env wt ids s1 = (r, s')" by simp
    moreover from None step have "core w0 (b # acc) s1" "pending (b # acc) ids s1" by simp_all
    ultimately show ?thesis by (rule Cons.IH)
  next
    case (Some e)
    with pb Cons.prems(1) have "r = Some e" "s' = s1" by simp_all
    with step show ?thesis by auto
  qed
qed

lemma run_callback_core:
  assumes "run_callback cb s = (r, s')" "core w0 acc s"
  shows "core w0 acc s'" "watched s' = watched s" "munches s' = munches s"
proof -
  from assms(1) have "core w0 acc s' \<and> watched s' = watched s \<and> munches s' = munches s"
  proof (cases rule: run_callback_cases)
    case nocb
    with assms(2) show ?thesis by simp
  next
    case (called c x w')
    have "core w0 (snd (fturn (watched s, acc) (Callback (dict_values (munches s))))) s'"
      by (rule core_snoc_other[OF assms(2)]) (use called in simp_all)
    with called show ?thesis by simp
  qed
  then show "core w0 acc s'" "watched s' = watched s" "munches s' = munches s" by simp_all
qed

lemma clock_core:
  assumes "core w0 acc s"
  shows "core w0 acc (s\<lparr>trace := trace s @ [Clock t]\<rparr>)"
proof -
  have "core w0 (snd (fturn (watched s, acc) (Clock t))) (s\<lparr>trace := trace s @ [Clock t]\<rparr>)"
    by (rule core_snoc_other[OF assms]) simp_all
  then show ?thesis by simp
qed

lemma run_sleep_core:
  assumes "run_sleep env iv s = (out, s')" "core w0 acc s" "set (watched s) \<subseteq> set acc"
  shows "core w0 [] s'" "\<And>res. out \<noteq> Return res"
proof -
  from assms(1) obtain x w' where
    s': "s' = s\<lparr>world := w', trace := trace s @ [Sleep iv]\<rparr>"
    and out: "out = (case x of None \<Rightarrow> Continue | Some err \<Rightarrow> Raise (Propagated err))"
    by (cases rule: run_sleep_cases) simp_all
  have "core w0 (snd (fturn (watched s, acc) (Sleep iv))) s'"
    by (rule core_snoc_other[OF assms(2)]) (use assms(3) in \<open>simp_all add: s'\<close>)
  then show "core w0 [] s'" by simp
  from out show "\<And>res. out \<noteq> Return res" by (cases x) simp_all
qed

lemma wait_round_core:
  assumes it: "iterates_sets env"
    and wr: "wait_round env wt iv cb timeout terminate s = (out, s')"
    and c: "core w0 [] s"
  shows "(out = Continue \<longrightarrow> core w0 [] s') \<and> (out \<noteq> Continue \<longrightarrow> round_end w0 out s')"
proof -
  from c have "distinct (watched s)" by (simp add: core_def)
  with it have "distinct (set_iter env (watched s))"
    "set (set_iter env (watched s)) = set (watched s)"
    unfolding iterates_sets_def by blast+
  then have p: "pending [] (set_iter env (watched s)) s" by (simp add: pending_def)
  have polled: "\<exists>acc. core w0 acc s1 \<and> (r = None \<longrightarrow> set (watched s1) \<subseteq> set acc)"
    if "poll_watched env wt (set_iter env (watched s)) s = (r, s1)" for r s1
    using that c p by (rule poll_watched_core)
  have called: "\<exists>acc. core w0 acc s2 \<and> set (watched s2) \<subseteq> set acc
      \<and> munches s2 = munches s1 \<and> watched s2 = watched s1"
    if "poll_watched env wt (set_iter env (watched s)) s = (None, s1)"
      "run_callback cb s1 = (r, s2)" for r s1 s2
  proof -
    from polled[OF that(1)] obtain acc where a: "core w0 acc s1" "set (watched s1) \<subseteq> set acc"
      by auto
    from run_callback_core[OF that(2) a(1)] a(2) show ?thesis by auto
  qed
  from wr show ?thesis
  proof (cases rule: wait_round_cases)
    case (poll_raised e)
    with polled[OF poll_raised(1)] show ?thesis by (auto simp: round_end_def)
  next
    case (callback_raised s1 e)
    with called[OF callback_raised(1,2)] show ?thesis by (auto simp: round_end_def)
  next
    case (returned s1)
    with called[OF returned(1,2)] show ?thesis by (auto simp: round_end_def)
  next
    case (timed_out s1 s2)
    from called[OF timed_out(1,2)] obtain acc where "core w0 acc s2" by auto
    then have "core w0 acc s'" unfolding timed_out(6) by (rule clock_core)
    with timed_out(7) show ?thesis by (auto simp: round_end_def)
  next
    case (slept_checked s1 s2)
    from called[OF slept_checked(1,2)] obtain acc where a: "core w0 acc s2"
      "set (watched s2) \<subseteq> set acc" by auto
    from a(1) have "core w0 acc (s2\<lparr>trace := trace s2 @ [Clock (time_time env (world s2))]\<rparr>)"
      by (rule clock_core)
    from run_sleep_core[OF slept_checked(6) this] a(2) show ?thesis
      by (auto simp: round_end_def)
  next
    case (slept s1 s2)
    from called[OF slept(1,2)] obtain acc where a: "core w0 acc s2"
      "set (watched s2) \<subseteq> set acc" by auto
    from run_sleep_core[OF slept(5) a] show ?thesis by (auto simp: round_end_def)
  qed
qed

lemma init_core: "core (watched (init env wt w)) [] (init env wt w)"
proof -
  have "never_again (init env wt w)"
    by (auto simp: never_again_def init_def Let_def Cons_eq_append_conv)
  then show ?thesis by (simp add: core_def) (simp add: init_def Let_def)
qed

lemma poll_build_watched:
  assumes "poll_build env wt b s = (r, s')"
  shows "set (watched s') \<subseteq> set (watched s)"
  using assms by (cases rule: poll_build_cases) auto

lemma poll_watched_watched:
  assumes "poll_watched env wt ids s = (r, s')"
  shows "set (watched s') \<subseteq> set (watched s)"
proof -
  have "(r = None \<longrightarrow> set (watched s') \<subseteq> set (watched s))
      \<and> (\<forall>e. r = Some e \<longrightarrow> set (watched s') \<subseteq> set (watched s))"
    using assms
  proof (rule poll_watched_induct_rule[where I="\<lambda>u. set (watched u) \<subseteq> set (watched s)"
        and Q="\<lambda>e u. set (watched u) \<subseteq> set (watched s)"])
    show "set (watched s) \<subseteq> set (watched s)" by simp
  next
    fix b u r1 u1
    assume "set (watched u) \<subseteq> set (watched s)" "poll_build env wt b u = (r1, u1)"
    with poll_build_watched[of env wt b u r1 u1]
    show "(r1 = None \<longrightarrow> set (watched u1) \<subseteq> set (watched s))
        \<and> (\<forall>e. r1 = Some e \<longrightarrow> set (watched u1) \<subseteq> set (watched s))"
      by auto
  qed
  then show ?thesis by (cases r) auto
qed

lemma wait_round_watched:
  assumes "wait_round env wt iv cb timeout terminate s = (out, s')"
  shows "set (watched s') \<subseteq> set (watched s)"
proof -
  have cbk: "watched s2 = watched s1" if "run_callback cb s1 = (r, s2)" for r s1 s2
    using that by (cases rule: run_callback_cases) simp_all
  have slp: "watched s3 = watched s2" if "run_sleep env iv s2 = (o3, s3)" for o3 s2 s3
    using that by (cases rule: run_sleep_cases) simp_all
  from assms show ?thesis
  proof (cases rule: wait_round_cases)
    case (poll_raised e)
    then show ?thesis using poll_watched_watched by blast
  next
    case (callback_raised s1 e)
    with poll_watched_watched[OF callback_raised(1)] cbk[OF callback_raised(2)]
    show ?thesis by simp
  next
    case (returned s1)
    with poll_watched_watched[OF returned(1)] cbk[OF returned(2)] show ?thesis by simp
  next
    case (timed_out s1 s2)
    with poll_watched_watched[OF timed_out(1)] cbk[OF timed_out(2)] show ?thesis by simp
  next
    case (slept_checked s1 s2)
    with poll_watched_watched[OF slept_checked(1)] cbk[OF slept_checked(2)]
      slp[OF slept_checked(6)] show ?thesis by simp
  next
    case (slept s1 s2)
    with poll_watched_watched[OF slept(1)] cbk[OF slept(2)] slp[OF slept(5)]
    show ?thesis by simp
  qed
qed

lemma wait_loop_watched:
  assumes "wait_loop k env wt iv cb timeout terminate s = (r, s')"
  shows "set (watched s') \<subseteq> set (watched s)"
  using assms
proof (induction k arbitrary: s)
  case 0
  then show ?case by simp
next
  case (Suc k)
  obtain out s1 where wr: "wait_round env wt iv cb timeout terminate s = (out, s1)"
    by (cases "wait_round env wt iv cb timeout terminate s")
  note sub = wait_round_watched[OF wr]
  show ?case
  proof (cases out)
    case Continue
    with wr Suc.prems have "wait_loop k env wt iv cb timeout terminate s1 = (r, s')" by simp
    from Suc.IH[OF this] sub show ?thesis by blast
  next
    case (Return ms)
    with wr Suc.prems sub show ?thesis by simp
  next
    case (Raise e)
    with wr Suc.prems sub show ?thesis by simp
  qed
qed

text \<open>
  Claim C4: read round by round, the trace of every run fetches only builds that are watched,
  none twice in a round, and by the sleep that ends a round every build still watched has
  been fetched; the set \<open>watched\<close> is what these fetches leave of the initial one. A build
  fetched in a terminal state is never fetched again and is no longer watched, and its
  snapshot is in the list that a returning run gives back. Running more rounds never adds
  to \<open>watched\<close>.
\<close>

theorem fetched_once_until_terminal:
  assumes "iterates_sets env"
    and "wait n env waitable interval callback timeout w = (r, s)"
  shows "fetches_ok (watched (init env waitable w), []) (trace s)
       \<and> fst (foldl fturn (watched (init env waitable w), []) (trace s)) = watched s
       \<and> (\<forall>xs p b m ys. trace s = xs @ Get p b (Inr m) # ys \<and> state m \<in> set terminal_states
             \<longrightarrow> (\<forall>q x. Get q b x \<notin> set ys) \<and> b \<notin> set (watched s)
                 \<and> (\<forall>res. r = Some (Inr res) \<longrightarrow> m \<in> set res))
       \<and> (\<forall>k r' s'. wait (n + k) env waitable interval callback timeout w = (r', s')
             \<longrightarrow> set (watched s') \<subseteq> set (watched s))"
proof -
  let ?w0 = "watched (init env waitable w)"
  have facts: "(r = None \<longrightarrow> core ?w0 [] s)
      \<and> (\<forall>ms. r = Some (Inr ms) \<longrightarrow> round_end ?w0 (Return ms) s)
      \<and> (\<forall>e. r = Some (Inl e) \<longrightarrow> round_end ?w0 (Raise e) s)"
    using assms(2)[unfolded wait_def] init_core
    by (rule wait_loop_induct_rule[where I="core ?w0 []" and Q="round_end ?w0"])
      (rule wait_round_core[OF assms(1)])
  have "\<exists>acc. core ?w0 acc s"
  proof (cases r)
    case None
    with facts show ?thesis by auto
  next
    case (Some x)
    with facts show ?thesis by (cases x) (auto simp: round_end_def)
  qed
  then obtain acc where c: "fetches_ok (?w0, []) (trace s)"
    "foldl fturn (?w0, []) (trace s) = (watched s, acc)" "never_again s"
    by (auto simp: core_def)
  from facts have ret: "\<forall>res. r = Some (Inr res) \<longrightarrow> res = dict_values (munches s)"
    by (simp add: round_end_def)
  have 3: "\<forall>xs p b m ys. trace s = xs @ Get p b (Inr m) # ys \<and> state m \<in> set terminal_states
             \<longrightarrow> (\<forall>q x. Get q b x \<notin> set ys) \<and> b \<notin> set (watched s)
                 \<and> (\<forall>res. r = Some (Inr res) \<longrightarrow> m \<in> set res)"
  proof (intro allI impI)
    fix xs p b m ys
    assume "trace s = xs @ Get p b (Inr m) # ys \<and> state m \<in> set terminal_states"
    with c(3) have n: "\<forall>q x. Get q b x \<notin> set ys" "b \<notin> set (watched s)"
      "map_of (munches s) b = Some m"
      unfolding never_again_def by blast+
    from n(3) have "(b, m) \<in> set (munches s)" by (rule map_of_SomeD)
    then have "m \<in> set (dict_values (munches s))" by (force simp: dict_values_def)
    with ret n(1,2) show "(\<forall>q x. Get q b x \<notin> set ys) \<and> b \<notin> set (watched s)
        \<and> (\<forall>res. r = Some (Inr res) \<longrightarrow> m \<in> set res)"
      by auto
  qed
  have 4: "\<forall>k r' s'. wait (n + k) env waitable interval callback timeout w = (r', s')
             \<longrightarrow> set (watched s') \<subseteq> set (watched s)"
  proof (intro allI impI)
    fix k r' s'
    assume more: "wait (n + k) env waitable interval callback timeout w = (r', s')"
    show "set (watched s') \<subseteq> set (watched s)"
    proof (cases r)
      case None
      with more assms(2) have "wait_loop k env waitable interval callback timeout
          (time_time env w + timeout) s = (r', s')"
        by (simp add: wait_def wait_loop_add)
      then show ?thesis by (rule wait_loop_watched)
    next
      case (Some x)
      with more assms(2) have "s' = s" by (simp add: wait_def wait_loop_add)
      then show ?thesis by simp
    qed
  qed
  from c(2) have 2: "fst (foldl fturn (?w0, []) (trace s)) = watched s" by simp
  show ?thesis using c(1) 2 3 4 by (intro conjI) assumption+
qed

theorem fetched_once_until_terminal_witness:
  "iterates_sets (scripted (\<lambda>p b k. if b = 1 then ''succeeded'' else if k = 0 then ''running'' else ''failed'')
             (\<lambda>xs. xs))
   \<and> trace (snd (wait (Suc (Suc 0))
          (scripted (\<lambda>p b k. if b = 1 then ''succeeded'' else if k = 0 then ''running'' else ''failed'')
             (\<lambda>xs. xs))
          (Many [\<lparr>id' = 1, state = ''pending'', proxy = Client 0\<rparr>,
                 \<lparr>id' = 2, state = ''pending'', proxy = Client 0\<rparr>] NoAttr) 0 None 0 start))
     = [Clock 0] @ Get 0 1 (Inr \<lparr>id' = 1, state = ''succeeded'', proxy = Client 0\<rparr>)
         # [Get 0 2 (Inr \<lparr>id' = 2, state = ''running'', proxy = Client 0\<rparr>), Sleep 0,
            Get 0 2 (Inr \<lparr>id' = 2, state = ''failed'', proxy = Client 0\<rparr>)]
   \<and> ''succeeded'' \<in> set terminal_states
   \<and> 1 \<notin> set (watched (snd (wait (Suc (Suc 0))
          (scripted (\<lambda>p b k. if b = 1 then ''succeeded'' else if k = 0 then ''running'' else ''failed'')
             (\<lambda>xs. xs))
          (Many [\<lparr>id' = 1, state = ''pending'', proxy = Client 0\<rparr>,
                 \<lparr>id' = 2, state = ''pending'', proxy = Client 0\<rparr>] NoAttr) 0 None 0 start)))
   \<and> fst (wait (Suc (Suc 0))
          (scripted (\<lambda>p b k. if b = 1 then ''succeeded'' else if k = 0 then ''running'' else ''failed'')
             (\<lambda>xs. xs))
          (Many [\<lparr>id' = 1, state = ''pending'', proxy = Client 0\<rparr>,
                 \<lparr>id' = 2, state = ''pending'', proxy = Client 0\<rparr>] NoAttr) 0 None 0 start)
     = Some (Inr [\<lparr>id' = 1, state = ''succeeded'', proxy = Client 0\<rparr>,
                  \<lparr>id' = 2, state = ''failed'', proxy = Client 0\<rparr>])
   \<and> fetches_ok ([1, 2], [])
        (trace (snd (wait (Suc (Suc 0))
          (scripted (\<lambda>p b k. if b = 1 then ''succeeded'' else if k = 0 then ''running'' else ''failed'')
             (\<lambda>xs. xs))
          (Many [\<lparr>id' = 1, state = ''pending'', proxy = Client 0\<rparr>,
                 \<lparr>id' = 2, state = ''pending'', proxy = Client 0\<rparr>] NoAttr) 0 None 0 start)))"
proof -
  let ?env = "scripted (\<lambda>p b k. if b = 1 then ''succeeded'' else if k = 0 then ''running'' else ''failed'')
             (\<lambda>xs. xs)"
  let ?wt = "Many [\<lparr>id' = 1, state = ''pending'', proxy = Client 0\<rparr>,
                 \<lparr>id' = 2, state = ''pending'', proxy = Client 0\<rparr>] NoAttr"
  let ?run = "wait (Suc (Suc 0)) ?env ?wt 0 None 0 start"
  have it: "iterates_sets ?env" by (simp add: iterates_sets_def scripted_def)
  have tr: "trace (snd ?run)
     = [Clock 0] @ Get 0 1 (Inr \<lparr>id' = 1, state = ''succeeded'', proxy = Client 0\<rparr>)
         # [Get 0 2 (Inr \<lparr>id' = 2, state = ''running'', proxy = Client 0\<rparr>), Sleep 0,
            Get 0 2 (Inr \<lparr>id' = 2, state = ''failed'', proxy = Client 0\<rparr>)]"
    and res: "fst ?run = Some (Inr [\<lparr>id' = 1, state = ''succeeded'', proxy = Client 0\<rparr>,
                  \<lparr>id' = 2, state = ''failed'', proxy = Client 0\<rparr>])"
    by (simp_all add: wait_def init_def dict_def wait_round_def poll_build_def run_callback_def
        run_sleep_def scripted_def start_def terminal_states_def dict_values_def Let_def)
  have tm: "''succeeded'' \<in> set terminal_states" by (simp add: terminal_states_def)
  have w0: "watched (init ?env ?wt start) = [1, 2]" by (simp add: init_def)
  have run: "?run = (fst ?run, snd ?run)" by simp
  note inst = fetched_once_until_terminal[OF it run, unfolded w0]
  from inst have ok: "fetches_ok ([1, 2], []) (trace (snd ?run))" by blast
  from inst tr tm have "1 \<notin> set (watched (snd ?run))"
    by (metis munch.select_convs(2))
  with it tr tm res ok show ?thesis by blast
qed

section \<open>Builds that all end\<close>




















end
